theory Spec2Isabelle
  imports Complex_Main
begin

section \<open>Text primitives of the Python standard library\<close>

text \<open>
  Strings are lists of characters. The character classes are those of Python's
  \<^verbatim>\<open>re\<close> module and of \<^verbatim>\<open>str.split\<close>/\<^verbatim>\<open>str.strip\<close> on \<^verbatim>\<open>str\<close> values, restricted to
  ASCII text: \<^verbatim>\<open>\s\<close> and \<^verbatim>\<open>str.isspace\<close> hold of the code points 9..13, 28..31 and 32,
  \<^verbatim>\<open>\d\<close> of the decimal digits, \<^verbatim>\<open>\w\<close> of letters, digits and the underscore.
\<close>

definition is_space :: "char \<Rightarrow> bool" where
  "is_space c = (let n = (of_char c :: nat) in (9 \<le> n \<and> n \<le> 13) \<or> (28 \<le> n \<and> n \<le> 32))"

definition is_digit :: "char \<Rightarrow> bool" where
  "is_digit c = (let n = (of_char c :: nat) in 48 \<le> n \<and> n \<le> 57)"

definition is_upper :: "char \<Rightarrow> bool" where
  "is_upper c = (let n = (of_char c :: nat) in 65 \<le> n \<and> n \<le> 90)"

definition is_lower :: "char \<Rightarrow> bool" where
  "is_lower c = (let n = (of_char c :: nat) in 97 \<le> n \<and> n \<le> 122)"

definition is_word :: "char \<Rightarrow> bool" where
  "is_word c = (is_digit c \<or> is_upper c \<or> is_lower c \<or> c = CHR ''_'')"

definition non_space :: "char \<Rightarrow> bool" where
  "non_space c = (\<not> is_space c)"

text \<open>\<^verbatim>\<open>str.lower\<close> on ASCII text.\<close>

definition lower_char :: "char \<Rightarrow> char" where
  "lower_char c = (if is_upper c then char_of (of_char c + (32 :: nat)) else c)"

definition lower :: "string \<Rightarrow> string" where
  "lower s = map lower_char s"

text \<open>\<^verbatim>\<open>str.strip()\<close>: leading and trailing whitespace removed.\<close>

definition strip :: "string \<Rightarrow> string" where
  "strip s = rev (dropWhile is_space (rev (dropWhile is_space s)))"

text \<open>
  \<^verbatim>\<open>str.split()\<close> without arguments: the maximal runs of non-whitespace characters.
  The accumulator holds the current run, reversed.
\<close>

fun split_acc :: "string \<Rightarrow> string \<Rightarrow> string list" where
  "split_acc cur [] = (if cur = [] then [] else [rev cur])"
| "split_acc cur (c # cs) =
     (if is_space c then (if cur = [] then split_acc [] cs else rev cur # split_acc [] cs)
      else split_acc (c # cur) cs)"

definition split :: "string \<Rightarrow> string list" where
  "split s = split_acc [] s"

text \<open>\<^verbatim>\<open>sep.join(xs)\<close>.\<close>

fun join :: "string \<Rightarrow> string list \<Rightarrow> string" where
  "join sep [] = []"
| "join sep [x] = x"
| "join sep (x # y # ys) = x @ sep @ join sep (y # ys)"

section \<open>The regular expressions of the source\<close>

text \<open>
  Python's \<^verbatim>\<open>re\<close> is a backtracking matcher. A pattern is modelled by the function
  that, given the character before the current position (\<open>None\<close> at the start of the
  text) and the rest of the text, lists the lengths of the matches starting at the
  position, in the order in which the backtracking search tries them; the match that
  \<^verbatim>\<open>re\<close> reports is the first of the list. Only the constructs that occur in the source
  are modelled: literals, greedy repetition of a character class, \<^verbatim>\<open>\b\<close>, a look-behind
  of one character, and concatenation.
\<close>

type_synonym matcher = "char option \<Rightarrow> string \<Rightarrow> nat list"

definition lit :: "string \<Rightarrow> matcher" where
  "lit w prev s = (if take (length w) s = w then [length w] else [])"

text \<open>\<open>rep_cls k P\<close> is \<^verbatim>\<open>[P]{k,}\<close>, greedy: the longest run first, then shorter ones.\<close>

definition rep_cls :: "nat \<Rightarrow> (char \<Rightarrow> bool) \<Rightarrow> matcher" where
  "rep_cls k P prev s =
     (let n = length (takeWhile P s) in if n < k then [] else rev [k ..< Suc n])"

definition is_word_opt :: "char option \<Rightarrow> bool" where
  "is_word_opt p = (case p of None \<Rightarrow> False | Some c \<Rightarrow> is_word c)"

definition first_char :: "string \<Rightarrow> char option" where
  "first_char s = (case s of [] \<Rightarrow> None | c # _ \<Rightarrow> Some c)"

definition word_boundary :: matcher where
  "word_boundary prev s = (if is_word_opt prev \<noteq> is_word_opt (first_char s) then [0] else [])"

definition look_behind :: "(char \<Rightarrow> bool) \<Rightarrow> matcher" where
  "look_behind P prev s = (case prev of None \<Rightarrow> [] | Some c \<Rightarrow> if P c then [0] else [])"

definition prev_at :: "char option \<Rightarrow> string \<Rightarrow> nat \<Rightarrow> char option" where
  "prev_at prev s n = (if n = 0 then prev else Some (s ! (n - 1)))"

definition seq :: "matcher \<Rightarrow> matcher \<Rightarrow> matcher" where
  "seq m1 m2 prev s =
     concat (map (\<lambda>n. map (\<lambda>k. n + k) (m2 (prev_at prev s n) (drop n s))) (m1 prev s))"

fun seqs :: "matcher list \<Rightarrow> matcher" where
  "seqs [] = (\<lambda>prev s. [0])"
| "seqs [m] = m"
| "seqs (m # ms) = seq m (seqs ms)"

text \<open>
  \<^verbatim>\<open>re.sub(pattern, repl, text)\<close>: the text is scanned from the left; at a position
  where the pattern matches, the replacement is emitted and the scan resumes after the
  match; elsewhere the character is copied. No pattern of the source matches the empty
  string, so a match of length 0 is treated as no match.
\<close>

fun re_sub :: "matcher \<Rightarrow> string \<Rightarrow> char option \<Rightarrow> string \<Rightarrow> string" where
  "re_sub m repl prev [] = []"
| "re_sub m repl prev (c # cs) =
     (case m prev (c # cs) of
        [] \<Rightarrow> c # re_sub m repl (Some c) cs
      | n # _ \<Rightarrow>
          if 0 < n then repl @ re_sub m repl (prev_at prev (c # cs) n) (drop (n - 1) cs)
          else c # re_sub m repl (Some c) cs)"

text \<open>\<^verbatim>\<open>re.split(pattern, text)\<close>: the pieces between the matches (the current piece is
  accumulated reversed).\<close>

fun re_split :: "matcher \<Rightarrow> string \<Rightarrow> char option \<Rightarrow> string \<Rightarrow> string list" where
  "re_split m cur prev [] = [rev cur]"
| "re_split m cur prev (c # cs) =
     (case m prev (c # cs) of
        [] \<Rightarrow> re_split m (c # cur) (Some c) cs
      | n # _ \<Rightarrow>
          if 0 < n then rev cur # re_split m [] (prev_at prev (c # cs) n) (drop (n - 1) cs)
          else re_split m (c # cur) (Some c) cs)"

text \<open>\<^verbatim>\<open>re.findall(pattern, text)\<close> for a pattern without groups: the matched texts.\<close>

fun re_findall :: "matcher \<Rightarrow> char option \<Rightarrow> string \<Rightarrow> string list" where
  "re_findall m prev [] = []"
| "re_findall m prev (c # cs) =
     (case m prev (c # cs) of
        [] \<Rightarrow> re_findall m (Some c) cs
      | n # _ \<Rightarrow>
          if 0 < n then take n (c # cs) # re_findall m (prev_at prev (c # cs) n) (drop (n - 1) cs)
          else re_findall m (Some c) cs)"

text \<open>The patterns, in the order of their appearance in \<^verbatim>\<open>utils.py\<close> and \<^verbatim>\<open>reranker.py\<close>.\<close>

definition pat_page :: matcher where \<comment> \<open>\<^verbatim>\<open>\bPage\s+\d+\b\<close>\<close>
  "pat_page = seqs [word_boundary, lit ''Page'', rep_cls 1 is_space, rep_cls 1 is_digit,
                    word_boundary]"

definition pat_n_of_m :: matcher where \<comment> \<open>\<^verbatim>\<open>\b\d+\s+of\s+\d+\b\<close>\<close>
  "pat_n_of_m = seqs [word_boundary, rep_cls 1 is_digit, rep_cls 1 is_space, lit ''of'',
                      rep_cls 1 is_space, rep_cls 1 is_digit, word_boundary]"

definition pat_url :: matcher where \<comment> \<open>\<^verbatim>\<open>http\S+\<close>\<close>
  "pat_url = seqs [lit ''http'', rep_cls 1 non_space]"

definition pat_email :: matcher where \<comment> \<open>\<^verbatim>\<open>\S+@\S+\<close>\<close>
  "pat_email = seqs [rep_cls 1 non_space, lit ''@'', rep_cls 1 non_space]"

definition pat_dots :: matcher where \<comment> \<open>\<^verbatim>\<open>\.{2,}\<close>\<close>
  "pat_dots = rep_cls 2 (\<lambda>c. c = CHR ''.'')"

definition pat_hyphens :: matcher where \<comment> \<open>\<^verbatim>\<open>-{2,}\<close>\<close>
  "pat_hyphens = rep_cls 2 (\<lambda>c. c = CHR ''-'')"

definition pat_ws :: matcher where \<comment> \<open>\<^verbatim>\<open>\s+\<close>\<close>
  "pat_ws = rep_cls 1 is_space"

definition is_terminator :: "char \<Rightarrow> bool" where
  "is_terminator c = (c = CHR ''.'' \<or> c = CHR ''!'' \<or> c = CHR ''?'')"

definition pat_sentence_gap :: matcher where \<comment> \<open>\<^verbatim>\<open>(?<=[.!?])\s+\<close>\<close>
  "pat_sentence_gap = seqs [look_behind is_terminator, rep_cls 1 is_space]"

definition pat_token :: matcher where \<comment> \<open>\<^verbatim>\<open>\b\w+\b\<close>\<close>
  "pat_token = seqs [word_boundary, rep_cls 1 is_word, word_boundary]"

section \<open>utils.py: normalising and chunking\<close>

text \<open>The whitespace step of \<^verbatim>\<open>clean_text\<close>: \<^verbatim>\<open>re.sub(r'\s+', ' ', text).strip()\<close>.\<close>

definition collapse_ws :: "string \<Rightarrow> string" where
  "collapse_ws text = strip (re_sub pat_ws '' '' None text)"

text \<open>The six removals of \<^verbatim>\<open>clean_text\<close> that precede the whitespace step.\<close>

definition remove_artifacts :: "string \<Rightarrow> string" where
  "remove_artifacts text =
     (let text = re_sub pat_page [] None text;
          text = re_sub pat_n_of_m [] None text;
          text = re_sub pat_url [] None text;
          text = re_sub pat_email [] None text;
          text = re_sub pat_dots ''.'' None text;
          text = re_sub pat_hyphens ''-'' None text
      in text)"

definition clean_text :: "string \<Rightarrow> string" where
  "clean_text text = (if text = [] then [] else collapse_ws (remove_artifacts text))"

text \<open>
  The loop of \<^verbatim>\<open>chunk_text\<close> keeps three variables: the chunks emitted so far, the
  sentences of the chunk being built, and its running word count.
\<close>

record chunker =
  chunks :: "string list"
  current_chunk :: "string list"
  current_length :: int

definition chunk_step :: "int \<Rightarrow> int \<Rightarrow> chunker \<Rightarrow> string \<Rightarrow> chunker" where
  "chunk_step chunk_size overlap st sentence =
     (let sentence_length = int (length (split sentence));
          st = (if current_length st + sentence_length > chunk_size \<and> current_chunk st \<noteq> []
                then
                  let overlap_start = max 0 (int (length (current_chunk st)) - overlap);
                      kept = drop (nat overlap_start) (current_chunk st)
                  in \<lparr>chunks = chunks st @ [join '' '' (current_chunk st)],
                      current_chunk = kept,
                      current_length = int (length (split (join '' '' kept)))\<rparr>
                else st)
      in st\<lparr>current_chunk := current_chunk st @ [sentence],
            current_length := current_length st + sentence_length\<rparr>)"

definition chunk_sentences :: "int \<Rightarrow> int \<Rightarrow> string list \<Rightarrow> string list" where
  "chunk_sentences chunk_size overlap sentences =
     (let st = foldl (chunk_step chunk_size overlap)
                 \<lparr>chunks = [], current_chunk = [], current_length = 0\<rparr> sentences
      in if current_chunk st \<noteq> [] then chunks st @ [join '' '' (current_chunk st)]
         else chunks st)"

definition chunk_text :: "string \<Rightarrow> int \<Rightarrow> int \<Rightarrow> string list" where
  "chunk_text text chunk_size overlap =
     (let text = clean_text text in
      if text = [] \<or> length (split text) < 20 then []
      else chunk_sentences chunk_size overlap (re_split pat_sentence_gap [] None text))"

section \<open>models.py and the ingestion of utils.py\<close>

text \<open>
  The relational store: the rows of \<^verbatim>\<open>Document\<close> and \<^verbatim>\<open>DocumentChunk\<close>, each list in
  insertion order, and the next primary key of \<^verbatim>\<open>Document\<close>. \<^verbatim>\<open>DocumentChunk\<close> declares
  \<^verbatim>\<open>unique_together = ('document', 'chunk_index')\<close>, so \<^verbatim>\<open>objects.create\<close> raises
  \<^verbatim>\<open>IntegrityError\<close> for a pair that is already stored. Every statement commits on its
  own, so the rows written before an exception stay.
\<close>

datatype error = IntegrityError | MultipleObjectsReturned | ZeroDivisionError
  | ValueError | IndexError | StoreError

record document =
  doc_id :: nat
  title :: string
  url :: string
  processed :: bool

record document_chunk =
  dc_document :: nat
  dc_chunk_text :: string
  dc_chunk_index :: int

record db =
  documents :: "document list"
  document_chunks :: "document_chunk list"
  next_id :: nat

record source =
  src_title :: string
  src_url :: string

definition empty_db :: db where
  "empty_db = \<lparr>documents = [], document_chunks = [], next_id = 1\<rparr>"

text \<open>\<^verbatim>\<open>doc.save()\<close>: the row with the primary key of \<open>d\<close> is overwritten.\<close>

definition save_document :: "document \<Rightarrow> db \<Rightarrow> db" where
  "save_document d s =
     s\<lparr>documents := map (\<lambda>x. if doc_id x = doc_id d then d else x) (documents s)\<rparr>"

text \<open>
  One iteration of the loop of \<^verbatim>\<open>load_sources\<close>: \<^verbatim>\<open>get_or_create\<close> by title, which
  raises when several rows have the title.
\<close>

definition load_source :: "source \<Rightarrow> db \<Rightarrow> error + db" where
  "load_source src s =
     (case filter (\<lambda>d. title d = src_title src) (documents s) of
        [] \<Rightarrow> Inr (s\<lparr>documents := documents s @
                        [\<lparr>doc_id = next_id s, title = src_title src, url = src_url src,
                          processed = False\<rparr>],
                      next_id := Suc (next_id s)\<rparr>)
      | [d] \<Rightarrow> Inr (save_document (d\<lparr>url := src_url src, processed := False\<rparr>) s)
      | _ \<Rightarrow> Inl MultipleObjectsReturned)"

text \<open>
  \<^verbatim>\<open>load_sources\<close>, given the parsed content of \<^verbatim>\<open>sources.json\<close>. An exception ends the
  loop and is swallowed by the \<^verbatim>\<open>except\<close> clause; the function returns all documents, here
  the store itself.
\<close>

fun load_sources :: "source list \<Rightarrow> db \<Rightarrow> db" where
  "load_sources [] s = s"
| "load_sources (src # rest) s =
     (case load_source src s of Inl e \<Rightarrow> s | Inr s' \<Rightarrow> load_sources rest s')"

definition create_chunk :: "nat \<Rightarrow> string \<Rightarrow> int \<Rightarrow> db \<Rightarrow> error + db" where
  "create_chunk d text i s =
     (if \<exists>c \<in> set (document_chunks s). dc_document c = d \<and> dc_chunk_index c = i
      then Inl IntegrityError
      else Inr (s\<lparr>document_chunks := document_chunks s @
                    [\<lparr>dc_document = d, dc_chunk_text = text, dc_chunk_index = i\<rparr>]\<rparr>))"

text \<open>\<^verbatim>\<open>enumerate(xs)\<close>.\<close>

definition enumerate_from0 :: "'a list \<Rightarrow> (nat \<times> 'a) list" where
  "enumerate_from0 xs = zip [0 ..< length xs] xs"

text \<open>
  The loop \<^verbatim>\<open>for i, chunk_text_content in enumerate(chunks)\<close>. The result is the store
  and the exception that ended the loop, if any.
\<close>

fun create_chunks :: "nat \<Rightarrow> (nat \<times> string) list \<Rightarrow> db \<Rightarrow> db \<times> error option" where
  "create_chunks d [] s = (s, None)"
| "create_chunks d ((i, c) # rest) s =
     (if length (split c) < 10 then create_chunks d rest s
      else case create_chunk d c (int i) s of
             Inl e \<Rightarrow> (s, Some e)
           | Inr s' \<Rightarrow> create_chunks d rest s')"

text \<open>
  The body of the loop over the unprocessed documents. Finding the PDF file of a title
  and extracting its text are the file system's and PyPDF2's part: \<open>pdf_text\<close> maps a
  title to the text of \<^verbatim>\<open>extract_text_from_pdf\<close>, or to \<open>None\<close> when no file is found.
\<close>

definition process_document :: "(string \<Rightarrow> string option) \<Rightarrow> document \<Rightarrow> db \<Rightarrow> db \<times> error option" where
  "process_document pdf_text doc s =
     (case pdf_text (title doc) of
        None \<Rightarrow> (s, None)
      | Some text \<Rightarrow>
          if text = [] then (s, None)
          else if length (split text) < 50 then (s, None)
          else
            (case create_chunks (doc_id doc) (enumerate_from0 (chunk_text text 300 50)) s of
               (s', Some e) \<Rightarrow> (s', Some e)
             | (s', None) \<Rightarrow> (save_document (doc\<lparr>processed := True\<rparr>) s', None)))"

fun process_each :: "(string \<Rightarrow> string option) \<Rightarrow> document list \<Rightarrow> db \<Rightarrow> db \<times> error option" where
  "process_each pdf_text [] s = (s, None)"
| "process_each pdf_text (doc # rest) s =
     (case process_document pdf_text doc s of
        (s', Some e) \<Rightarrow> (s', Some e)
      | (s', None) \<Rightarrow> process_each pdf_text rest s')"

definition process_documents :: "(string \<Rightarrow> string option) \<Rightarrow> db \<Rightarrow> db \<times> error option" where
  "process_documents pdf_text s =
     process_each pdf_text (filter (\<lambda>d. \<not> processed d) (documents s)) s"

section \<open>embeddings.py: vector retrieval\<close>

definition clean_chunk_text :: "string \<Rightarrow> string" where
  "clean_chunk_text text =
     (if text = [] then []
      else
        let text = strip (re_sub pat_ws '' '' None text);
            text = re_sub pat_page [] None text;
            text = re_sub pat_n_of_m [] None text
        in text)"

text \<open>
  A retrieved chunk is a dictionary in the source; the keys are the fields. The three
  keys that only \<^verbatim>\<open>rerank\<close> adds are optional. Scores are floating-point numbers in the
  source and real numbers here.
\<close>

record candidate =
  c_chunk_text :: string
  cleaned_text :: string
  document_title :: string
  document_url :: string
  chunk_index :: int
  score :: real
  vector_score :: "real option"
  bm25_score :: "real option"
  title_score :: "real option"

record metadata =
  md_original_text :: string
  md_document_title :: string
  md_document_url :: string
  md_chunk_index :: int

text \<open>
  The answer of \<^verbatim>\<open>collection.query\<close> for the one query embedding that is sent: the
  entries \<^verbatim>\<open>results[key][0]\<close>; \<^verbatim>\<open>distances\<close> may be absent.
\<close>

record query_result =
  ids :: "string list"
  metadatas :: "metadata list"
  qr_documents :: "string list"
  distances :: "real list option"

text \<open>
  The embedding model and the ChromaDB collection are external: a collection is the
  function from the cleaned query and \<^verbatim>\<open>n_results\<close> to the answer of the store or to the
  exception it raises. The module-level \<^verbatim>\<open>collection\<close> is \<open>None\<close> when the client could
  not be initialised.
\<close>

type_synonym collection = "string \<Rightarrow> int \<Rightarrow> error + query_result"

text \<open>The dictionary built for index \<open>i\<close>; \<open>None\<close> when an index is out of range, which
  raises \<^verbatim>\<open>IndexError\<close> in the source.\<close>

definition format_result :: "query_result \<Rightarrow> nat \<Rightarrow> candidate option" where
  "format_result results i =
     (if i < length (metadatas results) \<and> i < length (qr_documents results) then
        (case (case distances results of
                 None \<Rightarrow> Some 1
               | Some ds \<Rightarrow> if ds = [] then Some 1
                            else if i < length ds then Some (1 - ds ! i) else None) of
           None \<Rightarrow> None
         | Some sc \<Rightarrow>
             Some \<lparr>c_chunk_text = md_original_text (metadatas results ! i),
                   cleaned_text = qr_documents results ! i,
                   document_title = md_document_title (metadatas results ! i),
                   document_url = md_document_url (metadatas results ! i),
                   chunk_index = md_chunk_index (metadatas results ! i),
                   score = sc,
                   vector_score = None, bm25_score = None, title_score = None\<rparr>)
      else None)"

definition search_embeddings :: "collection option \<Rightarrow> string \<Rightarrow> int \<Rightarrow> candidate list" where
  "search_embeddings coll query k =
     (case coll of
        None \<Rightarrow> []
      | Some store \<Rightarrow>
          let clean_query = clean_chunk_text query in
          (case store clean_query (k * 2) of
             Inl e \<Rightarrow> []
           | Inr results \<Rightarrow>
               if ids results \<noteq> [] then
                 (case those (map (format_result results) [0 ..< length (ids results)]) of
                    None \<Rightarrow> []
                  | Some formatted_results \<Rightarrow> formatted_results)
               else []))"

section \<open>reranker.py\<close>

text \<open>
  \<^verbatim>\<open>ENGLISH_STOP_WORDS\<close> of scikit-learn is a parameter, \<open>stop_words\<close>; so is the Okapi
  BM25 score of \<^verbatim>\<open>rank_bm25\<close>: \<open>bm25 corpus query doc\<close> is the score of the tokenised
  document \<open>doc\<close> of the tokenised corpus for the tokenised query.
\<close>

type_synonym bm25_scorer = "string list list \<Rightarrow> string list \<Rightarrow> string list \<Rightarrow> real"

definition tokenize :: "string set \<Rightarrow> string \<Rightarrow> string list" where
  "tokenize stop_words text =
     filter (\<lambda>token. token \<notin> stop_words \<and> length token > 2)
       (re_findall pat_token None (lower text))"

definition calculate_title_match :: "string set \<Rightarrow> string \<Rightarrow> string \<Rightarrow> real" where
  "calculate_title_match stop_words query doc_title =
     (let query_words = set (tokenize stop_words query);
          title_words = set (tokenize stop_words doc_title)
      in if query_words = {} then 0
         else real (card (query_words \<inter> title_words)) / real (card query_words))"

record reranker =
  corpus :: "candidate list"
  tokenized_corpus :: "string list list"

text \<open>
  \<^verbatim>\<open>HybridReranker.__init__\<close>. The constructor of \<^verbatim>\<open>BM25Okapi\<close> divides by the number of
  documents and then by the number of distinct tokens of the corpus, so it raises
  \<^verbatim>\<open>ZeroDivisionError\<close> for an empty corpus and for a corpus none of whose documents has a
  token.
\<close>

definition HybridReranker :: "string set \<Rightarrow> candidate list \<Rightarrow> error + reranker" where
  "HybridReranker stop_words docs =
     (let tokens = map (\<lambda>doc. tokenize stop_words (cleaned_text doc)) docs in
      if docs = [] \<or> concat tokens = [] then Inl ZeroDivisionError
      else Inr \<lparr>corpus = docs, tokenized_corpus = tokens\<rparr>)"

text \<open>
  The min-max normalisation that \<^verbatim>\<open>rerank\<close> writes out twice, for the BM25 scores and
  for the vector scores.
\<close>

definition normalize_scores :: "real list \<Rightarrow> real list" where
  "normalize_scores xs =
     (if length xs > 0 \<and> Max (set xs) > Min (set xs)
      then map (\<lambda>x. (x - Min (set xs)) / (Max (set xs) - Min (set xs))) xs
      else map (\<lambda>x. 0.5) xs)"

definition combine :: "real \<Rightarrow> real list \<Rightarrow> real list \<Rightarrow> real list \<Rightarrow> real list \<Rightarrow> real list" where
  "combine alpha vector_scores_norm bm25_scores title_scores length_scores =
     map (\<lambda>i. alpha * vector_scores_norm ! i + 0.3 * bm25_scores ! i
               + 0.05 * title_scores ! i + 0.05 * length_scores ! i)
       [0 ..< length vector_scores_norm]"

text \<open>The four arrays that \<^verbatim>\<open>rerank\<close> computes before fusing them.\<close>

definition bm25_scores_of :: "bm25_scorer \<Rightarrow> string set \<Rightarrow> reranker \<Rightarrow> string \<Rightarrow> real list" where
  "bm25_scores_of bm25 stop_words self query =
     normalize_scores
       (map (bm25 (tokenized_corpus self) (tokenize stop_words query)) (tokenized_corpus self))"

definition title_scores_of :: "string set \<Rightarrow> reranker \<Rightarrow> string \<Rightarrow> real list" where
  "title_scores_of stop_words self query =
     map (\<lambda>doc. calculate_title_match stop_words query (document_title doc)) (corpus self)"

definition length_scores_of :: "reranker \<Rightarrow> real list" where
  "length_scores_of self =
     map (\<lambda>doc. min 1 (real (length (split (cleaned_text doc))) / 100)) (corpus self)"

definition combined_scores :: "bm25_scorer \<Rightarrow> string set \<Rightarrow> reranker \<Rightarrow> string \<Rightarrow> real list \<Rightarrow> real \<Rightarrow> real list" where
  "combined_scores bm25 stop_words self query vector_scores alpha =
     combine alpha (normalize_scores vector_scores) (bm25_scores_of bm25 stop_words self query)
       (title_scores_of stop_words self query) (length_scores_of self)"

text \<open>
  \<^verbatim>\<open>np.argsort\<close> is numpy's and a parameter, \<open>argsort\<close>. \<^verbatim>\<open>rerank\<close> calls it with the default
  kind, which is not stable: the result lists every index once, by ascending key, and
  the order of the indices of equal keys is not determined. \<open>ascending_order xs perm\<close> is
  this contract for the keys \<open>xs\<close> and the result \<open>perm\<close>. \<^verbatim>\<open>[::-1]\<close> reverses the result.
\<close>

type_synonym index_sort = "real list \<Rightarrow> nat list"

definition ascending_order :: "real list \<Rightarrow> nat list \<Rightarrow> bool" where
  "ascending_order xs perm =
     (distinct perm \<and> set perm = {0 ..< length xs} \<and> sorted (map (\<lambda>i. xs ! i) perm))"

definition sorted_indices :: "index_sort \<Rightarrow> real list \<Rightarrow> nat list" where
  "sorted_indices argsort xs = rev (argsort xs)"

text \<open>
  One index sort that meets the contract: the one that leaves equal keys in index order
  (\<^verbatim>\<open>kind='stable'\<close>). The default kind agrees with it on some arrays and not on others.
\<close>

definition stable_argsort :: index_sort where
  "stable_argsort xs = sort_key (\<lambda>i. xs ! i) [0 ..< length xs]"

text \<open>
  \<^verbatim>\<open>rerank\<close>. With as many vector scores as documents the arrays are fused
  elementwise. Otherwise numpy broadcasts an array of length one or fails: without vector
  scores and with one document the fused array is empty, an array or list of length one
  is indexed out of range in the final loop, and other lengths do not broadcast.
\<close>

definition rerank :: "bm25_scorer \<Rightarrow> string set \<Rightarrow> index_sort \<Rightarrow> reranker \<Rightarrow> string \<Rightarrow> real list \<Rightarrow> real \<Rightarrow> error + candidate list" where
  "rerank bm25 stop_words argsort self query vector_scores alpha =
     (let n = length (corpus self); m = length vector_scores in
      if m = n then
        let bm25_scores = bm25_scores_of bm25 stop_words self query;
            title_scores = title_scores_of stop_words self query;
            scores = combined_scores bm25 stop_words self query vector_scores alpha
        in Inr (map (\<lambda>idx. (corpus self ! idx)
                       \<lparr>score := scores ! idx,
                        vector_score := Some (vector_scores ! idx),
                        bm25_score := Some (bm25_scores ! idx),
                        title_score := Some (title_scores ! idx)\<rparr>)
                  (sorted_indices argsort scores))
      else if m = 0 \<and> n = 1 then Inr []
      else if m = 1 \<or> n = 1 then Inl IndexError
      else Inl ValueError)"

section \<open>views.py: answering a query\<close>

text \<open>The slice \<^verbatim>\<open>xs[:k]\<close>; a negative \<open>k\<close> counts from the end.\<close>

definition slice_to :: "int \<Rightarrow> 'a list \<Rightarrow> 'a list" where
  "slice_to k xs = (if 0 \<le> k then take (nat k) xs else take (nat (int (length xs) + k)) xs)"

text \<open>\<^verbatim>\<open>str.rfind\<close> of one character: the last index of the character, or \<open>-1\<close>.\<close>

definition rfind :: "string \<Rightarrow> char \<Rightarrow> int" where
  "rfind s c =
     (if c \<in> set s then int (length s) - 1 - int (length (takeWhile (\<lambda>x. x \<noteq> c) (rev s)))
      else - 1)"

definition truncate_answer :: "string \<Rightarrow> int \<Rightarrow> string" where
  "truncate_answer text max_length =
     (if int (length text) \<le> max_length then text
      else
        let truncated = slice_to max_length text;
            last_period = rfind truncated (CHR ''.'');
            last_exclamation = rfind truncated (CHR ''!'');
            last_question = rfind truncated (CHR ''?'');
            sentence_end = max (max last_period last_exclamation) last_question
        in if sentence_end > 0 then slice_to (sentence_end + 1) truncated @ ''..''
           else truncated @ ''...'')"

record context_source =
  cs_title :: string
  cs_url :: string
  cs_chunk_index :: int

record context_entry =
  ctx_text :: string
  ctx_score :: real
  ctx_source :: context_source

record response_data =
  resp_answer :: "string option"
  resp_contexts :: "context_entry list"
  resp_reranker_used :: bool
  resp_query :: string

text \<open>The request after \<^verbatim>\<open>json.loads\<close> and the defaults of \<^verbatim>\<open>data.get\<close>.\<close>

record request =
  req_method :: string
  req_q :: string
  req_k :: int
  req_mode :: string

datatype response =
    MethodNotAllowed  \<comment> \<open>status 405\<close>
  | BadRequest  \<comment> \<open>status 400\<close>
  | ServerError error  \<comment> \<open>status 500, from the \<^verbatim>\<open>except\<close> clause\<close>
  | JsonData response_data

definition context_of :: "candidate \<Rightarrow> context_entry" where
  "context_of result =
     \<lparr>ctx_text = c_chunk_text result, ctx_score = score result,
      ctx_source = \<lparr>cs_title = document_title result, cs_url = document_url result,
                    cs_chunk_index = chunk_index result\<rparr>\<rparr>"

text \<open>
  The part of \<^verbatim>\<open>ask_api\<close> that turns the ranked results into \<^verbatim>\<open>answer\<close> and
  \<^verbatim>\<open>contexts\<close> (the lines from \<^verbatim>\<open>answer = None\<close> to the end of the \<^verbatim>\<open>if results:\<close> block).
\<close>

definition answer_and_contexts :: "candidate list \<Rightarrow> string option \<times> context_entry list" where
  "answer_and_contexts results =
     (if results \<noteq> [] then
        let confidence_threshold = 0.3;
            top_results = filter (\<lambda>r. score r \<ge> confidence_threshold) results
        in if top_results \<noteq> [] then
             (Some (truncate_answer (join '' '' (map c_chunk_text (slice_to 3 top_results))) 500),
              map context_of results)
           else (None, [])
      else (None, []))"

text \<open>The selection of the results by mode: the list and the flag \<^verbatim>\<open>reranker_used\<close>.\<close>

definition ranked_results :: "bm25_scorer \<Rightarrow> string set \<Rightarrow> index_sort \<Rightarrow> string \<Rightarrow> int \<Rightarrow> string \<Rightarrow> candidate list \<Rightarrow> error + candidate list \<times> bool" where
  "ranked_results bm25 stop_words argsort query_text k mode baseline_results =
     (if mode = ''baseline'' then Inr (slice_to k baseline_results, False)
      else if baseline_results \<noteq> [] then
        (case HybridReranker stop_words baseline_results of
           Inl e \<Rightarrow> Inl e
         | Inr reranker \<Rightarrow>
             (case rerank bm25 stop_words argsort reranker query_text
                     (map score baseline_results) 0.6 of
                Inl e \<Rightarrow> Inl e
              | Inr reranked \<Rightarrow> Inr (slice_to k reranked, True)))
      else Inr ([], False))"

definition ask_api :: "collection option \<Rightarrow> bm25_scorer \<Rightarrow> string set \<Rightarrow> index_sort \<Rightarrow> request \<Rightarrow> response" where
  "ask_api coll bm25 stop_words argsort request =
     (if req_method request \<noteq> ''POST'' then MethodNotAllowed
      else if req_q request = [] then BadRequest
      else
        let baseline_results = search_embeddings coll (req_q request) (req_k request * 2) in
        (case ranked_results bm25 stop_words argsort (req_q request) (req_k request)
                (req_mode request) baseline_results of
           Inl e \<Rightarrow> ServerError e
         | Inr (results, used) \<Rightarrow>
             JsonData \<lparr>resp_answer = fst (answer_and_contexts results),
                       resp_contexts = snd (answer_and_contexts results),
                       resp_reranker_used = used,
                       resp_query = req_q request\<rparr>))"

section \<open>Auxiliary notions for the proofs\<close>

text \<open>The value of \<^verbatim>\<open>sentence_end\<close> in \<^verbatim>\<open>truncate_answer\<close>.\<close>

definition sentence_end_of :: "string \<Rightarrow> int" where
  "sentence_end_of tr = max (max (rfind tr (CHR ''.'')) (rfind tr (CHR ''!''))) (rfind tr (CHR ''?''))"

text \<open>A query answer is well formed when its lists have one entry per returned id.\<close>

definition well_formed :: "query_result \<Rightarrow> bool" where
  "well_formed results =
     (length (metadatas results) = length (ids results)
      \<and> length (qr_documents results) = length (ids results)
      \<and> (case distances results of None \<Rightarrow> True | Some ds \<Rightarrow> length ds = length (ids results)))"

text \<open>
  Example data: a store that holds two chunks, at the cosine distances \<open>0.8\<close> and \<open>0.9\<close>
  from every query, and rejects a request for fewer than two results; a BM25 scorer that
  is constantly \<open>0\<close>; and a baseline request for one result.
\<close>

definition example_metadata :: "int \<Rightarrow> metadata" where
  "example_metadata i =
     \<lparr>md_original_text = ''Lock out the machine.'', md_document_title = ''Guide'',
      md_document_url = ''u'', md_chunk_index = i\<rparr>"

definition example_rows :: query_result where
  "example_rows =
     \<lparr>ids = [''1_0'', ''1_1''],
      metadatas = [example_metadata 0, example_metadata 1],
      qr_documents = [''Lock out the machine.'', ''Lock out the machine.''],
      distances = Some [0.8, 0.9]\<rparr>"

definition example_store :: collection where
  "example_store clean_query n_results = (if n_results \<ge> 2 then Inr example_rows else Inl StoreError)"

definition example_candidate :: "int \<Rightarrow> real \<Rightarrow> candidate" where
  "example_candidate i sc =
     \<lparr>c_chunk_text = ''Lock out the machine.'', cleaned_text = ''Lock out the machine.'',
      document_title = ''Guide'', document_url = ''u'', chunk_index = i, score = sc,
      vector_score = None, bm25_score = None, title_score = None\<rparr>"

definition example_request :: request where
  "example_request = \<lparr>req_method = ''POST'', req_q = ''lock'', req_k = 1, req_mode = ''baseline''\<rparr>"

definition example_bm25 :: bm25_scorer where
  "example_bm25 tokenized_docs tokenized_query doc = 0"

text \<open>Two retrieved chunks with equal vector scores, and their entries after reranking.\<close>

definition example_reranker :: reranker where
  "example_reranker =
     \<lparr>corpus = [example_candidate 0 0.5, example_candidate 1 0.5],
      tokenized_corpus = [[''lock'', ''out'', ''the'', ''machine''], [''lock'', ''out'', ''the'', ''machine'']]\<rparr>"

definition example_scored :: "int \<Rightarrow> candidate" where
  "example_scored i =
     (example_candidate i 0.452)\<lparr>vector_score := Some 0.5, bm25_score := Some 0.5, title_score := Some 0\<rparr>"

text \<open>
  The normalised score of a value \<open>x\<close> in a list whose other values have the minimum \<open>m\<close>
  and the maximum \<open>M\<close>.
\<close>

definition unit_position :: "real \<Rightarrow> real \<Rightarrow> real \<Rightarrow> real" where
  "unit_position x m M =
     (if min x m < max x M then (x - min x m) / (max x M - min x m) else 0.5)"

text \<open>Whitespace occurs only as single blanks.\<close>

fun ws_normal :: "string \<Rightarrow> bool" where
  "ws_normal [] = True"
| "ws_normal [c] = (is_space c \<longrightarrow> c = CHR '' '')"
| "ws_normal (c # d # cs) = ((is_space c \<longrightarrow> c = CHR '' '' \<and> \<not> is_space d) \<and> ws_normal (d # cs))"

text \<open>
  Texts on which \<^verbatim>\<open>clean_text\<close> has nothing to do: lower-case letters other than \<^verbatim>\<open>h\<close>,
  single full stops and single blanks, with no blank at either end. \<open>plain_after p s\<close>
  reads \<open>s\<close> after the character \<open>p\<close>.
\<close>

definition inert :: "char \<Rightarrow> bool" where
  "inert c = (is_lower c \<and> c \<noteq> CHR ''h'')"

fun plain_after :: "char \<Rightarrow> string \<Rightarrow> bool" where
  "plain_after p [] = True"
| "plain_after p (c # cs) =
     ((inert c \<or> (c = CHR ''.'' \<and> p \<noteq> CHR ''.'') \<or> (c = CHR '' '' \<and> p \<noteq> CHR '' ''))
      \<and> plain_after c cs)"

definition tidy :: "string \<Rightarrow> bool" where
  "tidy s = (s \<noteq> [] \<and> plain_after (CHR '' '') s \<and> last s \<noteq> CHR '' '')"

text \<open>
  A sentence in the sense of the split pattern: no whitespace after a terminator inside,
  and a terminator at the end. \<open>unbroken q s\<close> reads \<open>s\<close> after the optional character \<open>q\<close>.
\<close>

definition term_opt :: "char option \<Rightarrow> bool" where
  "term_opt q = (case q of None \<Rightarrow> False | Some c \<Rightarrow> is_terminator c)"

fun unbroken :: "char option \<Rightarrow> string \<Rightarrow> bool" where
  "unbroken q [] = True"
| "unbroken q (c # cs) = (\<not> (term_opt q \<and> is_space c) \<and> unbroken (Some c) cs)"

definition whole_sentence :: "string \<Rightarrow> bool" where
  "whole_sentence s = (s \<noteq> [] \<and> \<not> is_space (hd s) \<and> unbroken None s \<and> is_terminator (last s))"

text \<open>The scenario of the specification: 25 sentences of 15 words each.\<close>

definition sent15 :: string where
  "sent15 = ''a a a a a a a a a a a a a a a.''"

definition text25 :: string where
  "text25 = join '' '' (replicate 25 sent15)"

text \<open>
  Example data for the ingestion: one source, whose PDF holds four sentences of 15
  words, and the store after its first ingestion, with the flag \<^verbatim>\<open>processed\<close> as given.
\<close>

definition text60 :: string where
  "text60 = join '' '' (replicate 4 sent15)"

definition example_source :: source where
  "example_source = \<lparr>src_title = ''Guide'', src_url = ''u''\<rparr>"

definition example_pdf :: "string \<Rightarrow> string option" where
  "example_pdf t = (if t = ''Guide'' then Some text60 else None)"

definition example_document :: "bool \<Rightarrow> document" where
  "example_document p = \<lparr>doc_id = 1, title = ''Guide'', url = ''u'', processed = p\<rparr>"

definition ingested_db :: "bool \<Rightarrow> db" where
  "ingested_db p =
     \<lparr>documents = [example_document p],
      document_chunks = [\<lparr>dc_document = 1, dc_chunk_text = text60, dc_chunk_index = 0\<rparr>],
      next_id = 2\<rparr>"




section \<open>Properties\<close>

subsection \<open>Score normalisation\<close>

lemma normalize_scores_length: "length (normalize_scores xs) = length xs"
  by (simp add: normalize_scores_def)

lemma normalize_scores_nth_var:
  assumes "Min (set xs) < Max (set xs)" and "i < length xs"
  shows "normalize_scores xs ! i = (xs ! i - Min (set xs)) / (Max (set xs) - Min (set xs))"
  using assms by (auto simp: normalize_scores_def)

lemma normalize_scores_nth_const:
  assumes "\<not> Min (set xs) < Max (set xs)" and "i < length xs"
  shows "normalize_scores xs ! i = 0.5"
  using assms by (auto simp: normalize_scores_def)

text \<open>
  C6. \<^verbatim>\<open>rerank\<close> normalises the BM25 scores and the vector scores by \<open>normalize_scores\<close>.
  For a non-empty score list with \<open>max > min\<close>, every normalised score lies in \<open>[0, 1]\<close>,
  every minimum is mapped to \<open>0\<close> and every maximum to \<open>1\<close>, so both bounds are attained;
  with \<open>max = min\<close> every normalised score is \<open>0.5\<close>.
\<close>

theorem normalize_scores_span:
  assumes "xs \<noteq> []"
  shows "(Max (set xs) > Min (set xs) \<longrightarrow>
            (\<forall>y \<in> set (normalize_scores xs). 0 \<le> y \<and> y \<le> 1)
          \<and> (\<forall>i < length xs. xs ! i = Min (set xs) \<longrightarrow> normalize_scores xs ! i = 0)
          \<and> (\<forall>i < length xs. xs ! i = Max (set xs) \<longrightarrow> normalize_scores xs ! i = 1)
          \<and> 0 \<in> set (normalize_scores xs) \<and> 1 \<in> set (normalize_scores xs))
       \<and> (Max (set xs) = Min (set xs) \<longrightarrow> (\<forall>y \<in> set (normalize_scores xs). y = 0.5))"
proof (intro conjI impI)
  assume var: "Min (set xs) < Max (set xs)"
  let ?lo = "Min (set xs)" and ?hi = "Max (set xs)"
  have fin: "finite (set xs)" and ne: "set xs \<noteq> {}" using assms by auto
  have eq: "normalize_scores xs = map (\<lambda>x. (x - ?lo) / (?hi - ?lo)) xs"
    using var assms by (simp add: normalize_scores_def)
  show "\<forall>y \<in> set (normalize_scores xs). 0 \<le> y \<and> y \<le> 1"
  proof
    fix y assume "y \<in> set (normalize_scores xs)"
    then obtain x where x: "x \<in> set xs" and y: "y = (x - ?lo) / (?hi - ?lo)"
      unfolding eq by auto
    have "?lo \<le> x" "x \<le> ?hi" using x fin by auto
    with var show "0 \<le> y \<and> y \<le> 1" unfolding y by (simp add: divide_le_eq)
  qed
  show "\<forall>i < length xs. xs ! i = ?lo \<longrightarrow> normalize_scores xs ! i = 0"
    by (simp add: eq)
  show "\<forall>i < length xs. xs ! i = ?hi \<longrightarrow> normalize_scores xs ! i = 1"
    using var by (simp add: eq)
  have "?lo \<in> set xs" using Min_in [OF fin ne] .
  then have "(?lo - ?lo) / (?hi - ?lo) \<in> set (normalize_scores xs)"
    unfolding eq by (simp only: set_map image_eqI)
  then show "0 \<in> set (normalize_scores xs)" by simp
  have "?hi \<in> set xs" using Max_in [OF fin ne] .
  then have "(?hi - ?lo) / (?hi - ?lo) \<in> set (normalize_scores xs)"
    unfolding eq by (simp only: set_map image_eqI)
  then show "1 \<in> set (normalize_scores xs)" using var by simp
next
  assume "Max (set xs) = Min (set xs)"
  then show "\<forall>y \<in> set (normalize_scores xs). y = 0.5"
    by (auto simp: normalize_scores_def)
qed

theorem normalize_scores_span_witness:
  "[0.9, 0.5, 0.1] \<noteq> ([] :: real list)
   \<and> normalize_scores [0.9, 0.5, 0.1] = [1, 0.5, 0]
   \<and> normalize_scores [0.4, 0.4] = [0.5, 0.5]
   \<and> 1 \<in> set (normalize_scores [0.9, 0.5, 0.1])"
  using normalize_scores_span [of "[0.9, 0.5, 0.1]"]
  by (simp add: normalize_scores_def)

subsection \<open>Truncation of the answer\<close>

lemma rfind_absent: "c \<notin> set s \<Longrightarrow> rfind s c = - 1"
  by (simp add: rfind_def)

lemma rfind_present:
  assumes "c \<in> set s"
  shows "0 \<le> rfind s c" and "rfind s c < int (length s)" and "s ! nat (rfind s c) = c"
proof -
  let ?k = "length (takeWhile (\<lambda>x. x \<noteq> c) (rev s))"
  have "c \<in> set (rev s)" using assms by simp
  then have "dropWhile (\<lambda>x. x \<noteq> c) (rev s) \<noteq> []"
    by (simp add: dropWhile_eq_Nil_conv)
  moreover have "length (takeWhile (\<lambda>x. x \<noteq> c) (rev s))
      + length (dropWhile (\<lambda>x. x \<noteq> c) (rev s)) = length (rev s)"
    by (simp only: length_append [symmetric] takeWhile_dropWhile_id)
  ultimately have k: "?k < length (rev s)"
    by (cases "dropWhile (\<lambda>x. x \<noteq> c) (rev s)") auto
  then have kl: "?k < length s" by simp
  have r: "rfind s c = int (length s) - 1 - int ?k" using assms by (simp add: rfind_def)
  show "0 \<le> rfind s c" using kl r by simp
  show "rfind s c < int (length s)" using r by simp
  have "\<not> (rev s ! ?k \<noteq> c)" using nth_length_takeWhile [OF k] .
  then have "rev s ! ?k = c" by simp
  moreover have "rev s ! ?k = s ! (length s - Suc ?k)" using kl by (simp add: rev_nth)
  moreover have "nat (rfind s c) = length s - Suc ?k" using kl r by simp
  ultimately show "s ! nat (rfind s c) = c" by simp
qed

lemma rfind_last:
  assumes "i < length s" and "s ! i = c"
  shows "int i \<le> rfind s c"
proof -
  let ?k = "length (takeWhile (\<lambda>x. x \<noteq> c) (rev s))"
  have mem: "c \<in> set s" using assms by (metis nth_mem)
  have r: "rfind s c = int (length s) - 1 - int ?k" using mem by (simp add: rfind_def)
  let ?j = "length s - Suc i"
  have j: "?j < length (rev s)" using assms by simp
  have jc: "rev s ! ?j = c" using assms by (simp add: rev_nth)
  have "\<not> ?j < ?k"
  proof
    assume less: "?j < ?k"
    then have "takeWhile (\<lambda>x. x \<noteq> c) (rev s) ! ?j = rev s ! ?j" by (rule takeWhile_nth)
    moreover have "takeWhile (\<lambda>x. x \<noteq> c) (rev s) ! ?j \<in> set (takeWhile (\<lambda>x. x \<noteq> c) (rev s))"
      using less by (rule nth_mem)
    ultimately have "rev s ! ?j \<in> set (takeWhile (\<lambda>x. x \<noteq> c) (rev s))" by simp
    then have "rev s ! ?j \<noteq> c" by (rule set_takeWhileD [THEN conjunct2])
    with jc show False by simp
  qed
  then have "?k \<le> ?j" by simp
  then show ?thesis using r assms by simp
qed

lemma rfind_ge: "- 1 \<le> rfind s c"
  using rfind_present(1) [of c s] rfind_absent [of c s] by (cases "c \<in> set s") auto

lemma rfind_lt: "rfind s c < int (length s)"
  using rfind_present(2) [of c s] rfind_absent [of c s] by (cases "c \<in> set s") auto

lemma rfind_nth: "0 \<le> rfind s c \<Longrightarrow> s ! nat (rfind s c) = c"
  using rfind_present(3) [of c s] rfind_absent [of c s] by (cases "c \<in> set s") auto

lemma sentence_end_bounds: "- 1 \<le> sentence_end_of tr \<and> sentence_end_of tr < int (length tr)"
  unfolding sentence_end_of_def
  using rfind_ge [of tr "CHR ''.''"] rfind_lt [of tr "CHR ''.''"] rfind_lt [of tr "CHR ''!''"]
    rfind_lt [of tr "CHR ''?''"]
  by linarith

lemma sentence_end_terminator:
  assumes "0 \<le> sentence_end_of tr"
  shows "is_terminator (tr ! nat (sentence_end_of tr))"
proof -
  consider "sentence_end_of tr = rfind tr (CHR ''.'')" | "sentence_end_of tr = rfind tr (CHR ''!'')"
    | "sentence_end_of tr = rfind tr (CHR ''?'')"
    unfolding sentence_end_of_def by linarith
  then show ?thesis
  proof cases
    case 1
    then show ?thesis using assms rfind_nth [of tr "CHR ''.''"] by (simp add: is_terminator_def)
  next
    case 2
    then show ?thesis using assms rfind_nth [of tr "CHR ''!''"] by (simp add: is_terminator_def)
  next
    case 3
    then show ?thesis using assms rfind_nth [of tr "CHR ''?''"] by (simp add: is_terminator_def)
  qed
qed

lemma sentence_end_last:
  assumes "i < length tr" and "is_terminator (tr ! i)"
  shows "int i \<le> sentence_end_of tr"
proof -
  from assms(2) consider "tr ! i = CHR ''.''" | "tr ! i = CHR ''!''" | "tr ! i = CHR ''?''"
    by (auto simp: is_terminator_def)
  then show ?thesis
  proof cases
    case 1
    then have "int i \<le> rfind tr (tr ! i)" using rfind_last [OF assms(1)] by simp
    then show ?thesis using 1 unfolding sentence_end_of_def by simp
  next
    case 2
    then have "int i \<le> rfind tr (tr ! i)" using rfind_last [OF assms(1)] by simp
    then show ?thesis using 2 unfolding sentence_end_of_def by simp
  next
    case 3
    then have "int i \<le> rfind tr (tr ! i)" using rfind_last [OF assms(1)] by simp
    then show ?thesis using 3 unfolding sentence_end_of_def by simp
  qed
qed

lemma truncate_answer_long:
  assumes "n < length text"
  shows "truncate_answer text (int n) =
           (if sentence_end_of (take n text) > 0
            then take (nat (sentence_end_of (take n text) + 1)) text @ ''..''
            else take n text @ ''...'')"
proof -
  have b: "sentence_end_of (take n text) < int n"
    using sentence_end_bounds [of "take n text"] assms by simp
  have c: "- 1 \<le> sentence_end_of (take n text)"
    using sentence_end_bounds [of "take n text"] by simp
  have "nat (sentence_end_of (take n text) + 1) \<le> n" using b by linarith
  then have "take (nat (sentence_end_of (take n text) + 1)) (take n text)
          = take (nat (sentence_end_of (take n text) + 1)) text"
    by (simp add: take_take min_absorb1)
  then show ?thesis
    using assms c
    by (simp add: truncate_answer_def slice_to_def sentence_end_of_def [symmetric] Let_def)
qed

text \<open>
  C8, amended. For a limit \<open>n \<ge> 0\<close>: the result of \<^verbatim>\<open>truncate_answer\<close> has at most
  \<open>n + 3\<close> characters; a text of at most \<open>n\<close> characters is returned unchanged; a longer
  text with a terminator at one of the indices \<open>1\<close> to \<open>n - 1\<close> is cut after the last such
  terminator and \<^verbatim>\<open>..\<close> is appended; a longer text without a terminator among its first
  \<open>n\<close> characters is cut at \<open>n\<close> and \<^verbatim>\<open>...\<close> is appended.
\<close>

theorem truncate_answer_spec:
  "length (truncate_answer text (int n)) \<le> n + 3
   \<and> (length text \<le> n \<longrightarrow> truncate_answer text (int n) = text)
   \<and> (n < length text \<longrightarrow>
        (\<forall>i. 0 < i \<and> i < n \<and> is_terminator (text ! i)
              \<and> (\<forall>j. i < j \<and> j < n \<longrightarrow> \<not> is_terminator (text ! j))
           \<longrightarrow> truncate_answer text (int n) = take (Suc i) text @ ''..'')
      \<and> ((\<forall>i. i < n \<longrightarrow> \<not> is_terminator (text ! i))
           \<longrightarrow> truncate_answer text (int n) = take n text @ ''...''))"
proof (intro conjI impI allI)
  show "length (truncate_answer text (int n)) \<le> n + 3"
  proof (cases "n < length text")
    case True
    have "sentence_end_of (take n text) < int n"
      using sentence_end_bounds [of "take n text"] True by simp
    then have "nat (sentence_end_of (take n text) + 1) \<le> n" by linarith
    then show ?thesis using True by (simp add: truncate_answer_long)
  next
    case False
    then show ?thesis by (simp add: truncate_answer_def)
  qed
next
  assume "length text \<le> n"
  then show "truncate_answer text (int n) = text" by (simp add: truncate_answer_def)
next
  fix i
  assume long: "n < length text"
    and i: "0 < i \<and> i < n \<and> is_terminator (text ! i)
              \<and> (\<forall>j. i < j \<and> j < n \<longrightarrow> \<not> is_terminator (text ! j))"
  let ?tr = "take n text"
  let ?e = "sentence_end_of ?tr"
  have len: "length ?tr = n" using long by simp
  have il: "i < length ?tr" using i long by simp
  have "is_terminator (?tr ! i)" using i by simp
  with il have ge: "int i \<le> ?e" by (rule sentence_end_last)
  then have pos: "0 < ?e" using i by simp
  have lt: "?e < int n" using sentence_end_bounds [of ?tr] len by simp
  have "is_terminator (?tr ! nat ?e)" using sentence_end_terminator [of ?tr] pos by simp
  then have "is_terminator (text ! nat ?e)" using lt pos by simp
  then have "\<not> i < nat ?e" using i lt pos by auto
  with ge have "?e = int i" by simp
  then show "truncate_answer text (int n) = take (Suc i) text @ ''..''"
    using i by (simp add: truncate_answer_long [OF long] nat_add_distrib)
next
  assume long: "n < length text"
    and none: "\<forall>i. i < n \<longrightarrow> \<not> is_terminator (text ! i)"
  let ?tr = "take n text"
  let ?e = "sentence_end_of ?tr"
  have len: "length ?tr = n" using long by simp
  have lt: "?e < int n" using sentence_end_bounds [of ?tr] len by simp
  have "\<not> 0 < ?e"
  proof
    assume pos: "0 < ?e"
    then have "is_terminator (?tr ! nat ?e)" using sentence_end_terminator [of ?tr] by simp
    then have "is_terminator (text ! nat ?e)" using lt pos by simp
    moreover have "nat ?e < n" using pos lt by simp
    ultimately show False using none by blast
  qed
  then show "truncate_answer text (int n) = take n text @ ''...''"
    by (simp add: truncate_answer_long [OF long])
qed

text \<open>
  C8 as stated fails on a text whose only terminator among the first \<open>n\<close> characters is
  its first character: the result is not cut after that terminator.
\<close>

theorem truncate_answer_first_char_counterexample:
  "length ''.abcdef'' > 3 \<and> is_terminator (''.abcdef'' ! 0)
   \<and> truncate_answer ''.abcdef'' 3 = ''.ab...''
   \<and> truncate_answer ''.abcdef'' 3 \<noteq> take 1 ''.abcdef'' @ ''..''"
  by (simp add: truncate_answer_def slice_to_def rfind_def is_terminator_def)

theorem truncate_answer_spec_witness:
  "8 < length ''Stop. Go now'' \<and> is_terminator (''Stop. Go now'' ! 4)
   \<and> truncate_answer ''Stop. Go now'' (int 8) = take (Suc 4) ''Stop. Go now'' @ ''..''
   \<and> 4 < length ''abcdefgh''
   \<and> truncate_answer ''abcdefgh'' (int 4) = take 4 ''abcdefgh'' @ ''...''
   \<and> length ''abc'' \<le> 4 \<and> truncate_answer ''abc'' (int 4) = ''abc''"
  using truncate_answer_spec [of "''Stop. Go now''" 8] truncate_answer_spec [of "''abcdefgh''" 4]
    truncate_answer_spec [of "''abc''" 4]
  by (simp add: truncate_answer_def slice_to_def rfind_def is_terminator_def)

subsection \<open>Vector retrieval and the answer of a query\<close>

lemma those_map_Some: "(\<forall>x \<in> set xs. g x = Some (f x)) \<Longrightarrow> those (map g xs) = Some (map f xs)"
  by (induction xs) auto

lemma example_search:
  "search_embeddings (Some example_store) ''lock'' 1 = [example_candidate 0 0.2, example_candidate 1 0.1]"
  by (simp add: search_embeddings_def example_store_def example_rows_def format_result_def
      example_candidate_def example_metadata_def upt_rec)

lemma search_embeddings_sorted_store:
  assumes ans: "store (clean_chunk_text query_text) (k * 2) = Inr results"
    and wf: "well_formed results"
    and ds: "distances results = Some ds"
  shows "map score (search_embeddings (Some store) query_text k) = map (\<lambda>d. 1 - d) ds"
    and "length (search_embeddings (Some store) query_text k) = length (ids results)"
proof -
  let ?n = "length (ids results)"
  let ?f = "\<lambda>i. \<lparr>c_chunk_text = md_original_text (metadatas results ! i),
                   cleaned_text = qr_documents results ! i,
                   document_title = md_document_title (metadatas results ! i),
                   document_url = md_document_url (metadatas results ! i),
                   chunk_index = md_chunk_index (metadatas results ! i),
                   score = 1 - ds ! i,
                   vector_score = None, bm25_score = None, title_score = None\<rparr>"
  have len: "length (metadatas results) = ?n" "length (qr_documents results) = ?n" "length ds = ?n"
    using wf ds by (auto simp: well_formed_def)
  have "\<forall>i \<in> set [0 ..< ?n]. format_result results i = Some (?f i)"
    using len ds by (auto simp: format_result_def)
  then have th: "those (map (format_result results) [0 ..< ?n]) = Some (map ?f [0 ..< ?n])"
    by (rule those_map_Some)
  have se: "search_embeddings (Some store) query_text k = map ?f [0 ..< ?n]"
    using ans th by (auto simp: search_embeddings_def)
  have "map score (map ?f [0 ..< ?n]) = map (\<lambda>i. 1 - ds ! i) [0 ..< length ds]"
    using len by simp
  also have "\<dots> = map (\<lambda>d. 1 - d) (map (\<lambda>i. ds ! i) [0 ..< length ds])" by simp
  also have "\<dots> = map (\<lambda>d. 1 - d) ds" by (simp only: map_nth)
  finally show "map score (search_embeddings (Some store) query_text k) = map (\<lambda>d. 1 - d) ds"
    by (simp only: se)
  show "length (search_embeddings (Some store) query_text k) = ?n" by (simp add: se)
qed

lemma descending_of_ascending:
  fixes ds :: "real list"
  assumes "sorted ds"
  shows "sorted (rev (map (\<lambda>d. 1 - d) ds))"
proof -
  have "sorted_wrt (\<lambda>x y. 1 - y \<le> 1 - x) ds"
    using assms sorted_wrt_mono_rel [of ds "(\<le>)" "\<lambda>x y. 1 - y \<le> 1 - x"] by simp
  then show ?thesis by (simp add: sorted_wrt_rev sorted_wrt_map)
qed

text \<open>
  C4, amended. \<^verbatim>\<open>search_embeddings(query, k)\<close> asks the store for \<open>2k\<close> results and
  returns all of them: at most \<open>2k\<close> candidates when the store honours \<^verbatim>\<open>n_results\<close>, in the
  order of the store, with \<open>score = 1 - d\<close> for the distance \<open>d\<close> of each, hence by descending
  similarity when the store answers by ascending distance. Without a collection, or when
  the store raises, the result is empty.
\<close>

theorem search_embeddings_contract:
  "search_embeddings None query_text k = []
   \<and> (store (clean_chunk_text query_text) (k * 2) = Inl e
        \<longrightarrow> search_embeddings (Some store) query_text k = [])
   \<and> (store (clean_chunk_text query_text) (k * 2) = Inr results \<and> well_formed results
        \<and> int (length (ids results)) \<le> k * 2 \<and> distances results = Some ds \<and> sorted ds
        \<longrightarrow> int (length (search_embeddings (Some store) query_text k)) \<le> 2 * k
          \<and> map score (search_embeddings (Some store) query_text k) = map (\<lambda>d. 1 - d) ds
          \<and> sorted (rev (map score (search_embeddings (Some store) query_text k))))"
proof (intro conjI impI)
  show "search_embeddings None query_text k = []" by (simp add: search_embeddings_def)
next
  assume "store (clean_chunk_text query_text) (k * 2) = Inl e"
  then show "search_embeddings (Some store) query_text k = []" by (simp add: search_embeddings_def)
next
  assume a: "store (clean_chunk_text query_text) (k * 2) = Inr results \<and> well_formed results
        \<and> int (length (ids results)) \<le> k * 2 \<and> distances results = Some ds \<and> sorted ds"
  then have s: "map score (search_embeddings (Some store) query_text k) = map (\<lambda>d. 1 - d) ds"
    and l: "length (search_embeddings (Some store) query_text k) = length (ids results)"
    using search_embeddings_sorted_store [of store query_text k results ds] by auto
  show "map score (search_embeddings (Some store) query_text k) = map (\<lambda>d. 1 - d) ds" by (rule s)
  show "int (length (search_embeddings (Some store) query_text k)) \<le> 2 * k" using a l by simp
  show "sorted (rev (map score (search_embeddings (Some store) query_text k)))"
    unfolding s using a by (simp only: descending_of_ascending)
qed

theorem search_embeddings_contract_witness:
  "example_store (clean_chunk_text ''lock'') (1 * 2) = Inr example_rows \<and> well_formed example_rows
   \<and> int (length (ids example_rows)) \<le> 1 * 2 \<and> distances example_rows = Some [0.8, 0.9]
   \<and> sorted [0.8, 0.9 :: real]
   \<and> map score (search_embeddings (Some example_store) ''lock'' 1) = [0.2, 0.1]
   \<and> example_store (clean_chunk_text ''lock'') (0 * 2) = Inl StoreError
   \<and> search_embeddings (Some example_store) ''lock'' 0 = []"
  using search_embeddings_contract [of "''lock''" 1 example_store StoreError example_rows "[0.8, 0.9]"]
    search_embeddings_contract [of "''lock''" 0 example_store StoreError example_rows "[0.8, 0.9]"]
  by (simp add: example_store_def example_rows_def well_formed_def)

text \<open>C4 as stated fails: for \<open>k = 1\<close> the two chunks of the example store are returned.\<close>

theorem search_embeddings_more_than_k_counterexample:
  "\<not> length (search_embeddings (Some example_store) ''lock'' 1) \<le> 1"
  by (simp add: example_search)

lemma answer_and_contexts_low:
  assumes "results \<noteq> []" and "\<forall>r \<in> set results. score r < 0.3"
  shows "answer_and_contexts results = (None, [])"
proof -
  have "filter (\<lambda>r. score r \<ge> 0.3) results = []" using assms(2) by (auto simp: filter_empty_conv)
  then show ?thesis by (simp add: answer_and_contexts_def)
qed

text \<open>
  C1, amended. When the ranked results are not empty and no score reaches the threshold
  \<open>0.3\<close>, \<^verbatim>\<open>ask_api\<close> answers with \<^verbatim>\<open>answer = null\<close> and with an empty \<^verbatim>\<open>contexts\<close> list:
  \<^verbatim>\<open>contexts\<close> is filled, from all the ranked results, only inside the branch
  \<^verbatim>\<open>if top_results:\<close>.
\<close>

theorem ask_api_no_confident_answer:
  assumes "req_method request = ''POST''" and "req_q request \<noteq> []"
    and "ranked_results bm25 stop_words argsort (req_q request) (req_k request)
           (req_mode request)
           (search_embeddings coll (req_q request) (req_k request * 2)) = Inr (results, used)"
    and "results \<noteq> []" and "\<forall>r \<in> set results. score r < 0.3"
  shows "ask_api coll bm25 stop_words argsort request =
           JsonData \<lparr>resp_answer = None, resp_contexts = [], resp_reranker_used = used,
                     resp_query = req_q request\<rparr>"
  using assms by (simp add: ask_api_def answer_and_contexts_low)

lemma example_search2:
  "search_embeddings (Some example_store) ''lock'' 2 = [example_candidate 0 0.2, example_candidate 1 0.1]"
  by (simp add: search_embeddings_def example_store_def example_rows_def format_result_def
      example_candidate_def example_metadata_def upt_rec)

lemma example_ranked:
  "ranked_results bm25 stop_words argsort ''lock'' 1 ''baseline''
     (search_embeddings (Some example_store) ''lock'' (1 * 2)) = Inr ([example_candidate 0 0.2], False)"
  by (simp add: example_search2 ranked_results_def slice_to_def)

theorem ask_api_no_confident_answer_witness:
  "req_method example_request = ''POST'' \<and> req_q example_request \<noteq> []
   \<and> ranked_results example_bm25 {} stable_argsort (req_q example_request)
         (req_k example_request) (req_mode example_request)
         (search_embeddings (Some example_store) (req_q example_request)
            (req_k example_request * 2))
       = Inr ([example_candidate 0 0.2], False)
   \<and> score (example_candidate 0 0.2) < 0.3
   \<and> ask_api (Some example_store) example_bm25 {} stable_argsort example_request =
       JsonData \<lparr>resp_answer = None, resp_contexts = [], resp_reranker_used = False,
                 resp_query = ''lock''\<rparr>"
  using ask_api_no_confident_answer [of example_request example_bm25 "{}" stable_argsort
      "Some example_store" "[example_candidate 0 0.2]" False]
    example_ranked [of example_bm25 "{}" stable_argsort]
  by (simp add: example_request_def example_candidate_def)

text \<open>
  C1 as stated fails: the one ranked result of the example request has the score \<open>0.2\<close>,
  and the answer carries no context entry for it.
\<close>

theorem ask_api_contexts_counterexample:
  "ranked_results example_bm25 {} stable_argsort ''lock'' 1 ''baseline''
     (search_embeddings (Some example_store) ''lock'' (1 * 2)) = Inr ([example_candidate 0 0.2], False)
   \<and> score (example_candidate 0 0.2) < 0.3
   \<and> ask_api (Some example_store) example_bm25 {} stable_argsort example_request =
       JsonData \<lparr>resp_answer = None, resp_contexts = [], resp_reranker_used = False,
                 resp_query = ''lock''\<rparr>
   \<and> map context_of [example_candidate 0 0.2] \<noteq> []"
  using example_ranked [of example_bm25 "{}" stable_argsort]
  by (simp add: ask_api_def example_request_def answer_and_contexts_def example_candidate_def)

subsection \<open>The order of the reranked results\<close>

lemma stable_argsort_ascending: "ascending_order xs (stable_argsort xs)"
  by (simp add: ascending_order_def stable_argsort_def)

lemma stable_argsort_ties:
  "filter (\<lambda>i. xs ! i = v) (stable_argsort xs) = filter (\<lambda>i. xs ! i = v) [0 ..< length xs]"
  unfolding stable_argsort_def by (rule sort_key_stable)

lemma ascending_order_length:
  assumes "ascending_order xs perm"
  shows "length perm = length xs"
proof -
  have "distinct perm" and "set perm = {0 ..< length xs}"
    using assms by (simp_all add: ascending_order_def)
  then have "length perm = card {0 ..< length xs}" by (simp add: distinct_card [symmetric])
  then show ?thesis by simp
qed

lemma sorted_indices_descending:
  assumes "ascending_order xs (argsort xs)"
  shows "sorted (rev (map (\<lambda>i. xs ! i) (sorted_indices argsort xs)))"
  using assms by (simp add: sorted_indices_def rev_map [symmetric] ascending_order_def)

lemma combined_scores_length:
  "length (combined_scores bm25 stop_words self query_text vector_scores alpha) = length vector_scores"
  by (simp add: combined_scores_def combine_def normalize_scores_length)

text \<open>
  C3, amended. For every index sort that meets the contract of \<^verbatim>\<open>np.argsort\<close> on the
  combined scores, \<^verbatim>\<open>rerank\<close> returns the candidates, each once, in descending order of the
  combined score. The order of candidates with equal combined scores is that of the
  reversed index sort: it is not fixed by the code, and where the sort leaves the indices
  of a score in index order, the candidates with that score come out in the reverse of
  their original order.
\<close>

theorem rerank_order:
  assumes "rerank bm25 stop_words argsort self query_text vector_scores alpha = Inr ranked"
    and "length vector_scores = length (corpus self)"
    and "scores = combined_scores bm25 stop_words self query_text vector_scores alpha"
    and "ascending_order scores (argsort scores)"
  shows "sorted (rev (map score ranked))
    \<and> length ranked = length (corpus self)
    \<and> set (sorted_indices argsort scores) = {0 ..< length (corpus self)}
    \<and> distinct (sorted_indices argsort scores)
    \<and> (\<forall>j < length ranked.
          score (ranked ! j) = scores ! (sorted_indices argsort scores ! j)
        \<and> c_chunk_text (ranked ! j)
            = c_chunk_text (corpus self ! (sorted_indices argsort scores ! j))
        \<and> chunk_index (ranked ! j)
            = chunk_index (corpus self ! (sorted_indices argsort scores ! j)))
    \<and> (\<forall>v. filter (\<lambda>i. scores ! i = v) (argsort scores)
               = filter (\<lambda>i. scores ! i = v) [0 ..< length (corpus self)]
          \<longrightarrow> filter (\<lambda>i. scores ! i = v) (sorted_indices argsort scores)
               = rev (filter (\<lambda>i. scores ! i = v) [0 ..< length (corpus self)]))"
proof -
  have len: "length scores = length (corpus self)"
    using assms(2,3) by (simp add: combined_scores_length)
  have r: "ranked = map (\<lambda>idx. (corpus self ! idx)
                       \<lparr>score := scores ! idx,
                        vector_score := Some (vector_scores ! idx),
                        bm25_score := Some (bm25_scores_of bm25 stop_words self query_text ! idx),
                        title_score := Some (title_scores_of stop_words self query_text ! idx)\<rparr>)
                  (sorted_indices argsort scores)"
    using assms(1,2,3) by (simp add: rerank_def Let_def)
  have ms: "map score ranked = map (\<lambda>i. scores ! i) (sorted_indices argsort scores)"
    unfolding r by simp
  have l: "length (sorted_indices argsort scores) = length (corpus self)"
    using ascending_order_length [OF assms(4)] len by (simp add: sorted_indices_def)
  have d: "distinct (argsort scores)" and st: "set (argsort scores) = {0 ..< length scores}"
    using assms(4) by (simp_all add: ascending_order_def)
  show ?thesis
  proof (intro conjI allI impI)
    show "sorted (rev (map score ranked))"
      unfolding ms using assms(4) by (rule sorted_indices_descending)
    show "length ranked = length (corpus self)" using l unfolding r by simp
    show "set (sorted_indices argsort scores) = {0 ..< length (corpus self)}"
      using st len by (simp add: sorted_indices_def)
    show "distinct (sorted_indices argsort scores)" using d by (simp add: sorted_indices_def)
  next
    fix j assume "j < length ranked"
    then have j: "j < length (sorted_indices argsort scores)" unfolding r by simp
    show "score (ranked ! j) = scores ! (sorted_indices argsort scores ! j)"
      using j unfolding r by simp
    show "c_chunk_text (ranked ! j)
            = c_chunk_text (corpus self ! (sorted_indices argsort scores ! j))"
      using j unfolding r by simp
    show "chunk_index (ranked ! j)
            = chunk_index (corpus self ! (sorted_indices argsort scores ! j))"
      using j unfolding r by simp
  next
    fix v
    assume "filter (\<lambda>i. scores ! i = v) (argsort scores)
               = filter (\<lambda>i. scores ! i = v) [0 ..< length (corpus self)]"
    then show "filter (\<lambda>i. scores ! i = v) (sorted_indices argsort scores)
               = rev (filter (\<lambda>i. scores ! i = v) [0 ..< length (corpus self)])"
      by (simp add: sorted_indices_def rev_filter [symmetric])
  qed
qed

lemma example_tokens: "tokenize {} ''Lock out the machine.'' = [''lock'', ''out'', ''the'', ''machine'']"
  by code_simp

lemma example_tokens_q: "tokenize {} ''lock'' = [''lock'']"
  by code_simp

lemma example_tokens_t: "tokenize {} ''Guide'' = [''guide'']"
  by code_simp

lemma example_words: "length (split ''Lock out the machine.'') = 4"
  by code_simp

lemma example_title: "calculate_title_match {} ''lock'' ''Guide'' = 0"
  by (simp add: calculate_title_match_def example_tokens_q example_tokens_t)

lemma example_combined:
  "combined_scores example_bm25 {} example_reranker ''lock'' [1 / 2, 1 / 2] (3 / 5)
     = [113 / 250, 113 / 250]"
  by (simp add: combined_scores_def combine_def normalize_scores_def bm25_scores_of_def
      title_scores_of_def length_scores_of_def example_reranker_def example_bm25_def
      example_candidate_def example_title example_words upt_rec)

lemma example_init:
  "HybridReranker {} [example_candidate 0 0.5, example_candidate 1 0.5] = Inr example_reranker"
  by (simp add: HybridReranker_def Let_def example_reranker_def example_candidate_def
      example_tokens)

lemma example_argsort: "stable_argsort [113 / 250, 113 / 250 :: real] = [0, 1]"
  by (simp add: stable_argsort_def upt_rec)

lemma example_rerank:
  "rerank example_bm25 {} stable_argsort example_reranker ''lock'' [0.5, 0.5] 0.6
     = Inr [example_scored 1, example_scored 0]"
proof -
  have si: "sorted_indices stable_argsort [113 / 250, 113 / 250 :: real] = [1, 0]"
    by (simp add: sorted_indices_def example_argsort)
  have b: "bm25_scores_of example_bm25 {} example_reranker ''lock'' = [0.5, 0.5]"
    by (simp add: bm25_scores_of_def normalize_scores_def example_reranker_def example_bm25_def)
  have t: "title_scores_of {} example_reranker ''lock'' = [0, 0]"
    by (simp add: title_scores_of_def example_reranker_def example_candidate_def example_title)
  have c: "corpus example_reranker = [example_candidate 0 0.5, example_candidate 1 0.5]"
    by (simp add: example_reranker_def)
  show ?thesis
    by (simp add: rerank_def Let_def example_combined si b t c example_scored_def example_candidate_def)
qed

text \<open>
  C3 as stated fails: the index sort leaves the two equal combined scores of the example
  in index order, \<open>[0, 1]\<close>, and the reversal puts the second candidate first.
\<close>

theorem rerank_ties_counterexample:
  "HybridReranker {} [example_candidate 0 0.5, example_candidate 1 0.5] = Inr example_reranker
   \<and> map score (corpus example_reranker) = [0.5, 0.5]
   \<and> combined_scores example_bm25 {} example_reranker ''lock'' [0.5, 0.5] 0.6 = [0.452, 0.452]
   \<and> stable_argsort [0.452, 0.452] = [0, 1]
   \<and> rerank example_bm25 {} stable_argsort example_reranker ''lock'' [0.5, 0.5] 0.6
       = Inr [example_scored 1, example_scored 0]
   \<and> map score [example_scored 1, example_scored 0] = [0.452, 0.452]
   \<and> map chunk_index [example_scored 1, example_scored 0] = [1, 0]"
  using example_init example_rerank example_combined example_argsort
  by (simp add: example_reranker_def example_scored_def example_candidate_def)

theorem rerank_order_witness:
  "rerank example_bm25 {} stable_argsort example_reranker ''lock'' [0.5, 0.5] 0.6
       = Inr [example_scored 1, example_scored 0]
   \<and> length [0.5, 0.5 :: real] = length (corpus example_reranker)
   \<and> ascending_order (combined_scores example_bm25 {} example_reranker ''lock'' [0.5, 0.5] 0.6)
        (stable_argsort (combined_scores example_bm25 {} example_reranker ''lock'' [0.5, 0.5] 0.6))
   \<and> sorted (rev (map score [example_scored 1, example_scored 0]))
   \<and> sorted_indices stable_argsort
         (combined_scores example_bm25 {} example_reranker ''lock'' [0.5, 0.5] 0.6)
       = [1, 0]"
proof -
  have r: "rerank example_bm25 {} stable_argsort example_reranker ''lock'' [0.5, 0.5] 0.6
       = Inr [example_scored 1, example_scored 0]"
    by (rule example_rerank)
  have l: "length [0.5, 0.5 :: real] = length (corpus example_reranker)"
    by (simp add: example_reranker_def)
  have a: "ascending_order
        (combined_scores example_bm25 {} example_reranker ''lock'' [0.5, 0.5] 0.6)
        (stable_argsort (combined_scores example_bm25 {} example_reranker ''lock'' [0.5, 0.5] 0.6))"
    by (rule stable_argsort_ascending)
  have si: "sorted_indices stable_argsort
         (combined_scores example_bm25 {} example_reranker ''lock'' [0.5, 0.5] 0.6)
       = [1, 0]"
    by (simp add: example_combined sorted_indices_def example_argsort)
  show ?thesis using rerank_order [OF r l refl a] r l a si by simp
qed

subsection \<open>Monotonicity of the fused score\<close>

lemma unit_position_mono:
  assumes "m \<le> M" and "x \<le> y"
  shows "unit_position x m M \<le> unit_position y m M"
proof -
  have below: "unit_position z m M = 0" if "z < m" for z
    using that assms(1) by (simp add: unit_position_def min_def max_def)
  have above: "unit_position z m M = 1" if "M < z" for z
    using that assms(1) by (simp add: unit_position_def min_def max_def)
  have inside: "unit_position z m M = (if m < M then (z - m) / (M - m) else 0.5)"
    if "m \<le> z" "z \<le> M" for z
    using that by (simp add: unit_position_def min_def max_def)
  have range: "0 \<le> unit_position z m M \<and> unit_position z m M \<le> 1" for z
  proof -
    consider "z < m" | "M < z" | "m \<le> z \<and> z \<le> M" by linarith
    then show ?thesis
    proof cases
      case 1 then show ?thesis by (simp add: below)
    next
      case 2 then show ?thesis by (simp add: above)
    next
      case 3 then show ?thesis by (simp add: inside divide_le_eq)
    qed
  qed
  consider "x < m" | "M < y" | "m \<le> x \<and> y \<le> M" by linarith
  then show ?thesis
  proof cases
    case 1
    then show ?thesis using range [of y] by (simp add: below)
  next
    case 2
    then show ?thesis using range [of x] by (simp add: above)
  next
    case 3
    then have "m \<le> x" "x \<le> M" "m \<le> y" "y \<le> M" using assms(2) by auto
    then show ?thesis using assms(2) by (simp add: inside divide_right_mono)
  qed
qed

lemma set_split_index:
  assumes "i < length xs"
  shows "set xs = insert (xs ! i) {xs ! j |j. j < length xs \<and> j \<noteq> i}"
proof -
  have "set xs = {xs ! j |j. j < length xs}" by (simp add: set_conv_nth)
  also have "\<dots> = insert (xs ! i) {xs ! j |j. j < length xs \<and> j \<noteq> i}"
    using assms by auto
  finally show ?thesis .
qed

lemma others_update:
  "{xs[i := v] ! j |j. j < length (xs[i := v]) \<and> j \<noteq> i} = {xs ! j |j. j < length xs \<and> j \<noteq> i}"
proof -
  have "{xs[i := v] ! j |j. j < length (xs[i := v]) \<and> j \<noteq> i}
      = (\<lambda>j. xs[i := v] ! j) ` {j. j < length xs \<and> j \<noteq> i}"
    by (simp only: setcompr_eq_image length_list_update)
  also have "\<dots> = (\<lambda>j. xs ! j) ` {j. j < length xs \<and> j \<noteq> i}"
    by (rule image_cong) auto
  also have "\<dots> = {xs ! j |j. j < length xs \<and> j \<noteq> i}"
    by (simp only: setcompr_eq_image)
  finally show ?thesis .
qed

lemma normalize_scores_nth_others:
  assumes i: "i < length xs" and ne: "{xs ! j |j. j < length xs \<and> j \<noteq> i} \<noteq> {}"
  shows "normalize_scores xs ! i =
           unit_position (xs ! i) (Min {xs ! j |j. j < length xs \<and> j \<noteq> i})
             (Max {xs ! j |j. j < length xs \<and> j \<noteq> i})"
proof -
  let ?O = "{xs ! j |j. j < length xs \<and> j \<noteq> i}"
  have fin: "finite ?O" by simp
  have s: "set xs = insert (xs ! i) ?O" using i by (rule set_split_index)
  have mn: "Min (set xs) = min (xs ! i) (Min ?O)" unfolding s using fin ne by (rule Min_insert)
  have mx: "Max (set xs) = max (xs ! i) (Max ?O)" unfolding s using fin ne by (rule Max_insert)
  have "xs \<noteq> []" using i by auto
  then show ?thesis
    using i by (simp add: normalize_scores_def unit_position_def mn [symmetric] mx [symmetric])
qed

lemma normalize_scores_nth_alone:
  assumes i: "i < length xs" and e: "{xs ! j |j. j < length xs \<and> j \<noteq> i} = {}"
  shows "normalize_scores xs ! i = 0.5"
proof -
  have "set xs = {xs ! i}" using set_split_index [OF i] e by simp
  then show ?thesis using i by (simp add: normalize_scores_def)
qed

lemma normalize_scores_mono:
  assumes i: "i < length xs" and le: "xs ! i \<le> v"
  shows "normalize_scores xs ! i \<le> normalize_scores (xs[i := v]) ! i"
proof (cases "{xs ! j |j. j < length xs \<and> j \<noteq> i} = {}")
  case True
  have i': "i < length (xs[i := v])" using i by simp
  have "{xs[i := v] ! j |j. j < length (xs[i := v]) \<and> j \<noteq> i} = {}"
    unfolding others_update by (rule True)
  with i' have "normalize_scores (xs[i := v]) ! i = 0.5" by (rule normalize_scores_nth_alone)
  moreover have "normalize_scores xs ! i = 0.5" using i True by (rule normalize_scores_nth_alone)
  ultimately show ?thesis by simp
next
  case False
  let ?O = "{xs ! j |j. j < length xs \<and> j \<noteq> i}"
  have i': "i < length (xs[i := v])" using i by simp
  have ne': "{xs[i := v] ! j |j. j < length (xs[i := v]) \<and> j \<noteq> i} \<noteq> {}"
    unfolding others_update by (rule False)
  have a: "normalize_scores xs ! i = unit_position (xs ! i) (Min ?O) (Max ?O)"
    using i False by (rule normalize_scores_nth_others)
  have "normalize_scores (xs[i := v]) ! i =
          unit_position (xs[i := v] ! i)
            (Min {xs[i := v] ! j |j. j < length (xs[i := v]) \<and> j \<noteq> i})
            (Max {xs[i := v] ! j |j. j < length (xs[i := v]) \<and> j \<noteq> i})"
    using i' ne' by (rule normalize_scores_nth_others)
  then have b: "normalize_scores (xs[i := v]) ! i = unit_position v (Min ?O) (Max ?O)"
    using i by (simp only: others_update nth_list_update_eq)
  have fin: "finite ?O" by simp
  from False obtain x where x: "x \<in> ?O" by blast
  have "Min ?O \<le> x" using fin x by (rule Min_le)
  also have "x \<le> Max ?O" using fin x by (rule Max_ge)
  finally have "Min ?O \<le> Max ?O" .
  then show ?thesis unfolding a b using le by (rule unit_position_mono)
qed

text \<open>
  C7. With a weight \<open>alpha \<ge> 0\<close> (the default is \<open>0.6\<close>), raising the vector score of one
  candidate, all other inputs unchanged, does not lower the combined score of that
  candidate.
\<close>

theorem combined_score_monotone:
  assumes "0 \<le> alpha" and "i < length vector_scores" and "vector_scores ! i \<le> v"
  shows "combined_scores bm25 stop_words self query_text vector_scores alpha ! i
       \<le> combined_scores bm25 stop_words self query_text (vector_scores[i := v]) alpha ! i"
proof -
  have "normalize_scores vector_scores ! i \<le> normalize_scores (vector_scores[i := v]) ! i"
    using assms(2,3) by (rule normalize_scores_mono)
  then have "alpha * normalize_scores vector_scores ! i
      \<le> alpha * normalize_scores (vector_scores[i := v]) ! i"
    using assms(1) by (rule mult_left_mono)
  then show ?thesis
    using assms(2) by (simp add: combined_scores_def combine_def normalize_scores_length)
qed

theorem combined_score_monotone_witness:
  "(0 :: real) \<le> 0.6 \<and> 0 < length [0.5, 0.5 :: real] \<and> [0.5, 0.5 :: real] ! 0 \<le> 0.9
   \<and> combined_scores example_bm25 {} example_reranker ''lock'' [0.5, 0.5] 0.6 ! 0
     \<le> combined_scores example_bm25 {} example_reranker ''lock'' ([0.5, 0.5][0 := 0.9]) 0.6 ! 0"
  using combined_score_monotone [of "0.6" 0 "[0.5, 0.5]" "0.9" example_bm25 "{}" example_reranker "''lock''"]
  by simp

subsection \<open>Text normalisation\<close>

lemma is_space_blank: "is_space (CHR '' '')"
  by (simp add: is_space_def)

lemma pat_ws_Cons:
  "pat_ws p (c # cs) =
     (if is_space c then Suc (length (takeWhile is_space cs)) # rev [1 ..< Suc (length (takeWhile is_space cs))]
      else [])"
  by (simp add: pat_ws_def rep_cls_def)

lemma drop_takeWhile_len: "drop (length (takeWhile P xs)) xs = dropWhile P xs"
  by (induction xs) auto

lemma sub_ws_Cons:
  "re_sub pat_ws '' '' p (c # cs) =
     (if is_space c then CHR '' '' # re_sub pat_ws '' '' (prev_at p (c # cs) (Suc (length (takeWhile is_space cs)))) (dropWhile is_space cs)
      else c # re_sub pat_ws '' '' (Some c) cs)"
  by (simp add: pat_ws_Cons drop_takeWhile_len)

lemma sub_ws_head:
  "s = [] \<or> \<not> is_space (hd s) \<Longrightarrow>
     re_sub pat_ws '' '' p s = [] \<or> \<not> is_space (hd (re_sub pat_ws '' '' p s))"
  by (cases s) (auto simp: sub_ws_Cons simp del: re_sub.simps(2))

lemma ws_normal_Cons:
  "ws_normal (c # t) = ((is_space c \<longrightarrow> c = CHR '' '' \<and> (t = [] \<or> \<not> is_space (hd t))) \<and> ws_normal t)"
  by (cases t) auto

lemma ws_normal_sub: "ws_normal (re_sub pat_ws '' '' p s)"
proof (induction "length s" arbitrary: s p rule: less_induct)
  case less
  show ?case
  proof (cases s)
    case Nil
    then show ?thesis by simp
  next
    case (Cons c cs)
    have len: "length (dropWhile is_space cs) < length s"
      using Cons length_dropWhile_le [of is_space cs] by simp
    have hd: "dropWhile is_space cs = [] \<or> \<not> is_space (hd (dropWhile is_space cs))"
      using hd_dropWhile [of is_space cs] by blast
    show ?thesis
      using less [OF len] less [of cs] sub_ws_head [OF hd] Cons
      by (simp add: sub_ws_Cons ws_normal_Cons del: re_sub.simps(2) ws_normal.simps)
  qed
qed

lemma sub_ws_normal: "ws_normal t \<Longrightarrow> re_sub pat_ws '' '' p t = t"
proof (induction t arbitrary: p rule: ws_normal.induct)
  case 1
  then show ?case by simp
next
  case (2 c)
  then show ?case by (simp add: sub_ws_Cons del: re_sub.simps(2))
next
  case (3 c d cs)
  then have IH: "\<And>q. re_sub pat_ws '' '' q (d # cs) = d # cs"
    by (simp del: re_sub.simps(2))
  show ?case
  proof (cases "is_space c")
    case True
    with "3.prems" have c: "c = CHR '' ''" and d: "\<not> is_space d" by auto
    have "re_sub pat_ws '' '' p (CHR '' '' # d # cs) = CHR '' '' # d # cs"
      by (subst sub_ws_Cons) (simp add: IH d is_space_blank del: re_sub.simps(2))
    then show ?thesis by (simp only: c)
  next
    case False
    then show ?thesis
      by (subst sub_ws_Cons) (simp add: IH del: re_sub.simps(2))
  qed
qed

lemma ws_normal_append: "ws_normal (xs @ ys) \<Longrightarrow> ws_normal xs \<and> ws_normal ys"
proof (induction xs rule: ws_normal.induct)
  case 1
  then show ?case by simp
next
  case (2 c)
  then show ?case by (cases ys) auto
next
  case (3 c d cs)
  then show ?case by auto
qed

lemma strip_decomp: "\<exists>a b. t = a @ strip t @ b"
proof -
  let ?u = "dropWhile is_space t"
  have 1: "t = takeWhile is_space t @ ?u" by simp
  have "rev ?u = takeWhile is_space (rev ?u) @ dropWhile is_space (rev ?u)" by simp
  then have "?u = rev (dropWhile is_space (rev ?u)) @ rev (takeWhile is_space (rev ?u))"
    by (metis rev_append rev_rev_ident)
  then have "?u = strip t @ rev (takeWhile is_space (rev ?u))" by (simp add: strip_def)
  with 1 show ?thesis by metis
qed

lemma ws_normal_strip: "ws_normal t \<Longrightarrow> ws_normal (strip t)"
  using strip_decomp [of t] ws_normal_append by metis

lemma strip_fix:
  assumes "t = [] \<or> (\<not> is_space (hd t) \<and> \<not> is_space (last t))"
  shows "strip t = t"
proof (cases "t = []")
  case True
  then show ?thesis by (simp add: strip_def)
next
  case False
  with assms have h: "\<not> is_space (hd t)" and l: "\<not> is_space (last t)" by auto
  have 1: "dropWhile is_space t = t" using h False by (simp add: dropWhile_eq_self_iff)
  have "hd (rev t) = last t" using False by (simp add: hd_rev)
  then have 2: "dropWhile is_space (rev t) = rev t" using l False by (simp add: dropWhile_eq_self_iff)
  show ?thesis by (simp add: strip_def 1 2)
qed

lemma strip_ends: "strip t = [] \<or> (\<not> is_space (hd (strip t)) \<and> \<not> is_space (last (strip t)))"
proof (cases "strip t = []")
  case True
  then show ?thesis by simp
next
  case False
  let ?u = "dropWhile is_space t"
  let ?w = "dropWhile is_space (rev ?u)"
  have w: "?w \<noteq> []" using False by (simp add: strip_def)
  have s: "strip t = rev ?w" by (simp add: strip_def)
  have l: "\<not> is_space (hd ?w)" using w hd_dropWhile by metis
  then have last: "\<not> is_space (last (strip t))" using w s by (simp add: last_rev)
  have u: "?u \<noteq> []"
  proof
    assume a: "?u = []"
    have "?w = []" unfolding a by simp
    with w show False by simp
  qed
  then have hu: "\<not> is_space (hd ?u)" using hd_dropWhile by metis
  have "rev ?u = takeWhile is_space (rev ?u) @ ?w" by simp
  then have "?u = rev ?w @ rev (takeWhile is_space (rev ?u))" by (metis rev_append rev_rev_ident)
  then have "hd ?u = hd (rev ?w)" using w by (metis hd_append2 rev_is_Nil_conv)
  with hu s last show ?thesis by simp
qed

lemma strip_idem: "strip (strip t) = strip t"
  using strip_fix [OF strip_ends] .

lemma collapse_ws_idem: "collapse_ws (collapse_ws x) = collapse_ws x"
proof -
  have "ws_normal (collapse_ws x)"
    unfolding collapse_ws_def by (rule ws_normal_strip) (rule ws_normal_sub)
  then have "re_sub pat_ws '' '' None (collapse_ws x) = collapse_ws x" by (rule sub_ws_normal)
  then have "collapse_ws (collapse_ws x) = strip (collapse_ws x)" by (simp add: collapse_ws_def)
  also have "\<dots> = collapse_ws x" by (simp add: collapse_ws_def strip_idem)
  finally show ?thesis .
qed

text \<open>
  C5, amended. \<^verbatim>\<open>clean_text\<close> is not idempotent in general: a removal can bring the two
  halves of a new match together. Its last step, the whitespace normalisation, is
  idempotent, and \<^verbatim>\<open>clean_text(clean_text(x)) = clean_text(x)\<close> holds for every \<open>x\<close> whose
  cleaned form contains nothing that the six removals would change.
\<close>

theorem clean_text_idempotent_if_clean:
  "collapse_ws (collapse_ws x) = collapse_ws x
   \<and> (remove_artifacts (clean_text x) = clean_text x
        \<longrightarrow> clean_text (clean_text x) = clean_text x)"
proof (intro conjI impI)
  show "collapse_ws (collapse_ws x) = collapse_ws x" by (rule collapse_ws_idem)
next
  assume a: "remove_artifacts (clean_text x) = clean_text x"
  show "clean_text (clean_text x) = clean_text x"
  proof (cases "clean_text x = []")
    case True
    then show ?thesis by (simp add: clean_text_def)
  next
    case False
    then have x: "clean_text x = collapse_ws (remove_artifacts x)"
      by (simp add: clean_text_def split: if_splits)
    have "clean_text (clean_text x) = collapse_ws (remove_artifacts (clean_text x))"
      using False by (simp add: clean_text_def)
    also have "\<dots> = collapse_ws (clean_text x)" by (simp only: a)
    also have "\<dots> = clean_text x" unfolding x by (rule collapse_ws_idem)
    finally show ?thesis .
  qed
qed

lemma clean_text_example: "clean_text ''a  b'' = ''a b''"
  by code_simp

lemma remove_artifacts_example: "remove_artifacts ''a b'' = ''a b''"
  by code_simp

theorem clean_text_idempotent_if_clean_witness:
  "remove_artifacts (clean_text ''a  b'') = clean_text ''a  b''
   \<and> clean_text (clean_text ''a  b'') = clean_text ''a  b''"
  using clean_text_idempotent_if_clean [of "''a  b''"]
  by (simp add: clean_text_example remove_artifacts_example)

lemma clean_text_page_once: "clean_text ''Page Page 1 2'' = ''Page 2''"
  by code_simp

lemma clean_text_page_twice: "clean_text ''Page 2'' = []"
  by code_simp

text \<open>
  C5 as stated fails: removing \<^verbatim>\<open>Page 1\<close> from \<^verbatim>\<open>Page Page 1 2\<close> leaves \<^verbatim>\<open>Page 2\<close>, which the
  second application removes.
\<close>

theorem clean_text_not_idempotent_counterexample:
  "clean_text (clean_text ''Page Page 1 2'') \<noteq> clean_text ''Page Page 1 2''"
  by (simp add: clean_text_page_once clean_text_page_twice)

subsection \<open>Chunking\<close>

lemma inert_not:
  assumes "inert c"
  shows "\<not> is_space c" "\<not> is_digit c" "c \<noteq> CHR ''P''" "c \<noteq> CHR ''h''" "c \<noteq> CHR ''@''"
    "c \<noteq> CHR ''.''" "c \<noteq> CHR ''-''" "c \<noteq> CHR '' ''"
  using assms by (auto simp: inert_def is_lower_def is_space_def is_digit_def Let_def)

lemma dot_not: "\<not> is_space (CHR ''.'')" "\<not> is_digit (CHR ''.'')"
  by (simp_all add: is_space_def is_digit_def)

lemma blank_not: "\<not> is_digit (CHR '' '')"
  by (simp add: is_digit_def)

lemma plain_after_head:
  assumes "plain_after p (c # cs)"
  shows "\<not> is_digit c" "c \<noteq> CHR ''P''" "c \<noteq> CHR ''h''" "c \<noteq> CHR ''@''" "c \<noteq> CHR ''-''"
    "is_space c \<longrightarrow> c = CHR '' '' \<and> p \<noteq> CHR '' ''" "plain_after c cs"
  using assms inert_not [of c] dot_not blank_not by auto

lemma plain_after_no_at: "plain_after p s \<Longrightarrow> CHR ''@'' \<notin> set s"
proof (induction s arbitrary: p)
  case Nil
  then show ?case by simp
next
  case (Cons c cs)
  then show ?case using plain_after_head(4,7) [OF Cons.prems] by auto
qed

lemma re_sub_unchanged:
  assumes none: "\<And>p q c cs. plain_after p (c # cs) \<Longrightarrow> m q (c # cs) = []"
  shows "plain_after p s \<Longrightarrow> re_sub m repl q s = s"
proof (induction s arbitrary: p q)
  case Nil
  then show ?case by simp
next
  case (Cons c cs)
  have "m q (c # cs) = []" using Cons.prems by (rule none)
  moreover have "plain_after c cs" using Cons.prems by simp
  ultimately show ?case using Cons.IH by simp
qed

lemma pat_page_none: "c \<noteq> CHR ''P'' \<Longrightarrow> pat_page q (c # cs) = []"
  by (simp add: pat_page_def seq_def lit_def word_boundary_def prev_at_def)

lemma pat_n_of_m_none: "\<not> is_digit c \<Longrightarrow> pat_n_of_m q (c # cs) = []"
  by (simp add: pat_n_of_m_def seq_def rep_cls_def word_boundary_def prev_at_def)

lemma pat_url_none: "c \<noteq> CHR ''h'' \<Longrightarrow> pat_url q (c # cs) = []"
  by (simp add: pat_url_def seq_def lit_def)

lemma pat_hyphens_none: "c \<noteq> CHR ''-'' \<Longrightarrow> pat_hyphens q (c # cs) = []"
  by (simp add: pat_hyphens_def rep_cls_def)

lemma lit_at_none: "CHR ''@'' \<notin> set s \<Longrightarrow> lit ''@'' q (drop n s) = []"
proof (cases "drop n s")
  case Nil
  then show ?thesis by (simp add: lit_def)
next
  case (Cons d ds)
  assume a: "CHR ''@'' \<notin> set s"
  have "d \<in> set (drop n s)" using Cons by simp
  then have "d \<in> set s" by (rule in_set_dropD)
  with a have "d \<noteq> CHR ''@''" by auto
  then show ?thesis using Cons by (simp add: lit_def)
qed

lemma seq_lit_at_none: "CHR ''@'' \<notin> set s \<Longrightarrow> seq (lit ''@'') m q (drop n s) = []"
  using lit_at_none [of s q n] by (simp add: seq_def)

lemma pat_email_none: "CHR ''@'' \<notin> set s \<Longrightarrow> pat_email q s = []"
proof -
  assume a: "CHR ''@'' \<notin> set s"
  have "seq m1 (seq (lit ''@'') m) q s = []" for m1 m
    unfolding seq_def [of m1] using seq_lit_at_none [OF a] by simp
  then show ?thesis by (simp add: pat_email_def)
qed

lemma pat_dots_none: "plain_after p (c # cs) \<Longrightarrow> pat_dots q (c # cs) = []"
proof (cases cs)
  case Nil
  then show ?thesis by (simp add: pat_dots_def rep_cls_def)
next
  case (Cons d ds)
  assume "plain_after p (c # cs)"
  then have "c = CHR ''.'' \<longrightarrow> d \<noteq> CHR ''.''" using Cons inert_not(6) [of d] by auto
  then show ?thesis using Cons by (simp add: pat_dots_def rep_cls_def)
qed

lemma remove_artifacts_plain:
  assumes "plain_after p s"
  shows "remove_artifacts s = s"
proof -
  have 1: "re_sub pat_page [] None s = s"
    using assms by (rule re_sub_unchanged [rotated]) (rule pat_page_none, rule plain_after_head(2))
  have 2: "re_sub pat_n_of_m [] None s = s"
    using assms by (rule re_sub_unchanged [rotated]) (rule pat_n_of_m_none, rule plain_after_head(1))
  have 3: "re_sub pat_url [] None s = s"
    using assms by (rule re_sub_unchanged [rotated]) (rule pat_url_none, rule plain_after_head(3))
  have 4: "re_sub pat_email [] None s = s"
    using assms by (rule re_sub_unchanged [rotated]) (rule pat_email_none, rule plain_after_no_at)
  have 5: "re_sub pat_dots ''.'' None s = s"
    using assms by (rule re_sub_unchanged [rotated]) (rule pat_dots_none)
  have 6: "re_sub pat_hyphens ''-'' None s = s"
    using assms by (rule re_sub_unchanged [rotated]) (rule pat_hyphens_none, rule plain_after_head(5))
  show ?thesis by (simp add: remove_artifacts_def 1 2 3 4 5 6)
qed

lemma plain_after_ws_normal: "plain_after p s \<Longrightarrow> ws_normal s"
proof (induction s arbitrary: p)
  case Nil
  then show ?case by simp
next
  case (Cons c cs)
  have t: "plain_after c cs" using Cons.prems by simp
  have sp: "is_space c \<longrightarrow> c = CHR '' ''" using plain_after_head(6) [OF Cons.prems] by simp
  have nx: "is_space c \<longrightarrow> cs = [] \<or> \<not> is_space (hd cs)"
  proof (cases cs)
    case Nil
    then show ?thesis by simp
  next
    case (Cons d ds)
    have "plain_after c (d # ds)" using t Cons by simp
    then have h: "is_space d \<longrightarrow> d = CHR '' '' \<and> c \<noteq> CHR '' ''" by (rule plain_after_head(6))
    show ?thesis
    proof
      assume "is_space c"
      with sp have "c = CHR '' ''" by blast
      with h have "\<not> is_space d" by blast
      then show "cs = [] \<or> \<not> is_space (hd cs)" using Cons by simp
    qed
  qed
  show ?case using sp nx Cons.IH [OF t] by (simp add: ws_normal_Cons del: ws_normal.simps)
qed

lemma plain_after_set: "plain_after p s \<Longrightarrow> c \<in> set s \<Longrightarrow> is_space c \<longrightarrow> c = CHR '' ''"
proof (induction s arbitrary: p)
  case Nil
  then show ?case by simp
next
  case (Cons d ds)
  then show ?case using plain_after_head(6,7) [OF Cons.prems(1)] by auto
qed

lemma clean_text_tidy:
  assumes "tidy s"
  shows "clean_text s = s"
proof -
  have ne: "s \<noteq> []" and pl: "plain_after (CHR '' '') s" and la: "last s \<noteq> CHR '' ''"
    using assms by (auto simp: tidy_def)
  have ra: "remove_artifacts s = s" using pl by (rule remove_artifacts_plain)
  have ws: "re_sub pat_ws '' '' None s = s"
    using plain_after_ws_normal [OF pl] by (rule sub_ws_normal)
  have "\<not> is_space (hd s)" using ne pl plain_after_head(6) [of "CHR '' ''" "hd s" "tl s"] by auto
  moreover have "\<not> is_space (last s)"
    using plain_after_set [OF pl, of "last s"] ne la by auto
  ultimately have "strip s = s" by (simp add: strip_fix)
  then show ?thesis using ne by (simp add: clean_text_def collapse_ws_def ra ws)
qed

lemma plain_after_append:
  "plain_after p (a @ b) = (plain_after p a \<and> plain_after (last (p # a)) b)"
  by (induction a arbitrary: p) auto

lemma tidy_append:
  assumes "tidy a" and "tidy b"
  shows "tidy (a @ '' '' @ b)"
  using assms by (auto simp: tidy_def plain_after_append)

lemma tidy_join: "ss \<noteq> [] \<Longrightarrow> \<forall>s \<in> set ss. tidy s \<Longrightarrow> tidy (join '' '' ss)"
proof (induction "'' ''" ss rule: join.induct)
  case 1
  then show ?case by simp
next
  case (2 x)
  then show ?case by simp
next
  case (3 x y ys)
  then have "tidy x" and "tidy (join '' '' (y # ys))" by auto
  then have "tidy (x @ '' '' @ join '' '' (y # ys))" by (rule tidy_append)
  then show ?case by simp
qed

lemma split_acc_blank:
  "split_acc cur (a @ CHR '' '' # b) = split_acc cur a @ split_acc [] b"
  by (induction a arbitrary: cur) (simp_all add: is_space_blank)

lemma split_append_blank: "split (a @ '' '' @ b) = split a @ split b"
  by (simp add: split_def split_acc_blank)

lemma split_join: "split (join '' '' ss) = concat (map split ss)"
proof (induction "'' ''" ss rule: join.induct)
  case 1
  then show ?case by (simp add: split_def)
next
  case (2 x)
  then show ?case by simp
next
  case (3 x y ys)
  have "split (join '' '' (x # y # ys)) = split (x @ '' '' @ join '' '' (y # ys))" by simp
  also have "\<dots> = split x @ split (join '' '' (y # ys))" by (rule split_append_blank)
  finally show ?case using 3 by simp
qed

lemma words_join: "length (split (join '' '' ss)) = sum_list (map (\<lambda>s. length (split s)) ss)"
  by (simp add: split_join length_concat comp_def)

lemma add_zero_fun: "(+) (0 :: nat) = (\<lambda>k. k)"
  by auto

lemma gap_eq: "pat_sentence_gap q s = (if term_opt q then rep_cls 1 is_space q s else [])"
  by (cases q)
    (simp_all add: pat_sentence_gap_def seq_def look_behind_def term_opt_def prev_at_def rep_cls_def
      add_zero_fun)

lemma gap_none: "\<not> (term_opt q \<and> is_space c) \<Longrightarrow> pat_sentence_gap q (c # cs) = []"
  by (auto simp: gap_eq rep_cls_def)

lemma gap_single:
  assumes "is_terminator t" and "b = [] \<or> \<not> is_space (hd b)"
  shows "pat_sentence_gap (Some t) (CHR '' '' # b) = [1]"
proof -
  have "takeWhile is_space b = []" using assms(2) by (cases b) auto
  then show ?thesis
    using assms(1) by (simp add: gap_eq term_opt_def rep_cls_def is_space_blank)
qed

lemma re_split_unbroken:
  "unbroken q s \<Longrightarrow>
   re_split pat_sentence_gap cur q (s @ rest) =
     re_split pat_sentence_gap (rev s @ cur) (if s = [] then q else Some (last s)) rest"
proof (induction s arbitrary: cur q)
  case Nil
  then show ?case by simp
next
  case (Cons c cs)
  have g: "pat_sentence_gap q (c # cs @ rest) = []" using Cons.prems by (simp add: gap_none)
  have u: "unbroken (Some c) cs" using Cons.prems by simp
  have "re_split pat_sentence_gap cur q ((c # cs) @ rest)
      = re_split pat_sentence_gap (c # cur) (Some c) (cs @ rest)"
    using g by simp
  also have "\<dots> = re_split pat_sentence_gap (rev cs @ c # cur)
      (if cs = [] then Some c else Some (last cs)) rest"
    using u by (rule Cons.IH)
  finally show ?case by simp
qed

lemma re_split_gap:
  assumes "is_terminator t" and "b = [] \<or> \<not> is_space (hd b)"
  shows "re_split pat_sentence_gap cur (Some t) (CHR '' '' # b)
       = rev cur # re_split pat_sentence_gap [] (Some (CHR '' '')) b"
  using gap_single [OF assms] by (simp add: prev_at_def)

lemma unbroken_start: "\<not> term_opt q \<Longrightarrow> unbroken q s = unbroken None s"
  by (cases s) (simp_all add: term_opt_def)

lemma join_nonempty: "ss \<noteq> [] \<Longrightarrow> hd ss \<noteq> [] \<Longrightarrow> join sep ss \<noteq> [] \<and> hd (join sep ss) = hd (hd ss)"
  by (induction sep ss rule: join.induct) auto

lemma re_split_sentences:
  "ss \<noteq> [] \<Longrightarrow> \<forall>s \<in> set ss. whole_sentence s \<Longrightarrow> \<not> term_opt q \<Longrightarrow>
   re_split pat_sentence_gap [] q (join '' '' ss) = ss"
proof (induction "'' ''" ss arbitrary: q rule: join.induct)
  case 1
  then show ?case by simp
next
  case (2 x)
  then have "unbroken q x" by (simp add: whole_sentence_def unbroken_start)
  then have "re_split pat_sentence_gap [] q (x @ []) =
     re_split pat_sentence_gap (rev x @ []) (if x = [] then q else Some (last x)) []"
    by (rule re_split_unbroken)
  then show ?case by simp
next
  case (3 x y ys)
  let ?J = "join '' '' (y # ys)"
  have x: "whole_sentence x" and y: "whole_sentence y" using "3.prems" by auto
  have ux: "unbroken q x" using x "3.prems"(3) by (simp add: whole_sentence_def unbroken_start)
  have xne: "x \<noteq> []" and lx: "is_terminator (last x)" using x by (auto simp: whole_sentence_def)
  have "y \<noteq> []" and "\<not> is_space (hd y)" using y by (auto simp: whole_sentence_def)
  then have J: "?J = [] \<or> \<not> is_space (hd ?J)" using join_nonempty [of "y # ys" "'' ''"] by simp
  have nt: "\<not> term_opt (Some (CHR '' ''))" by (simp add: term_opt_def is_terminator_def)
  have "re_split pat_sentence_gap [] q (join '' '' (x # y # ys))
      = re_split pat_sentence_gap [] q (x @ CHR '' '' # ?J)" by simp
  also have "\<dots> = re_split pat_sentence_gap (rev x @ []) (if x = [] then q else Some (last x))
      (CHR '' '' # ?J)"
    using ux by (rule re_split_unbroken)
  also have "\<dots> = re_split pat_sentence_gap (rev x) (Some (last x)) (CHR '' '' # ?J)"
    using xne by simp
  also have "\<dots> = rev (rev x) # re_split pat_sentence_gap [] (Some (CHR '' '')) ?J"
    using lx J by (rule re_split_gap)
  also have "re_split pat_sentence_gap [] (Some (CHR '' '')) ?J = y # ys"
    using "3.prems"(2) nt by (intro "3.hyps") auto
  finally show ?case by simp
qed

lemma sent15_tidy: "tidy sent15"
  by (simp add: tidy_def sent15_def inert_def is_lower_def)

lemma sent15_sentence: "whole_sentence sent15"
  by (simp add: whole_sentence_def sent15_def term_opt_def is_space_def is_terminator_def)

lemma sent15_words: "length (split sent15) = 15"
  by (simp add: split_def sent15_def is_space_def)

lemma replicate_tidy: "0 < n \<Longrightarrow> tidy (join '' '' (replicate n sent15))"
  by (rule tidy_join) (simp_all add: sent15_tidy)

lemma replicate_clean: "0 < n \<Longrightarrow> clean_text (join '' '' (replicate n sent15)) = join '' '' (replicate n sent15)"
  by (rule clean_text_tidy) (rule replicate_tidy)

lemma replicate_words: "length (split (join '' '' (replicate n sent15))) = 15 * n"
  by (simp add: words_join sent15_words sum_list_replicate)

lemma replicate_sentences:
  "0 < n \<Longrightarrow> re_split pat_sentence_gap [] None (join '' '' (replicate n sent15)) = replicate n sent15"
  by (rule re_split_sentences) (simp_all add: sent15_sentence term_opt_def)

lemma chunk_step_replicate:
  assumes "n \<le> 50"
  shows "chunk_step 300 50
           \<lparr>chunks = map (\<lambda>k. join '' '' (replicate k sent15)) [20 ..< n],
            current_chunk = replicate n sent15, current_length = 15 * int n\<rparr> sent15
       = \<lparr>chunks = map (\<lambda>k. join '' '' (replicate k sent15)) [20 ..< Suc n],
          current_chunk = replicate (Suc n) sent15, current_length = 15 * int (Suc n)\<rparr>"
proof (cases "20 \<le> n")
  case True
  then have "0 < n" by simp
  then have ne: "replicate n sent15 \<noteq> []" by simp
  have kept: "nat (max 0 (int n - 50)) = 0" using assms by simp
  have app: "replicate n sent15 @ [sent15] = sent15 # replicate n sent15"
    by (rule replicate_append_same)
  show ?thesis
    using True ne
    by (simp add: chunk_step_def Let_def sent15_words kept replicate_words app del: replicate.simps)
      (simp add: app)
next
  case False
  have app: "replicate n sent15 @ [sent15] = sent15 # replicate n sent15"
    by (rule replicate_append_same)
  show ?thesis
    using False by (simp add: chunk_step_def Let_def sent15_words app)
qed

lemma chunk_loop_replicate:
  "n \<le> 50 \<Longrightarrow>
   foldl (chunk_step 300 50) \<lparr>chunks = [], current_chunk = [], current_length = 0\<rparr>
     (replicate n sent15)
   = \<lparr>chunks = map (\<lambda>k. join '' '' (replicate k sent15)) [20 ..< n],
      current_chunk = replicate n sent15, current_length = 15 * int n\<rparr>"
proof (induction n)
  case 0
  then show ?case by simp
next
  case (Suc n)
  then have n: "n \<le> 50" by simp
  have "replicate (Suc n) sent15 = replicate n sent15 @ [sent15]"
    by (simp add: replicate_append_same)
  then have "foldl (chunk_step 300 50) \<lparr>chunks = [], current_chunk = [], current_length = 0\<rparr>
       (replicate (Suc n) sent15)
     = chunk_step 300 50 (foldl (chunk_step 300 50)
         \<lparr>chunks = [], current_chunk = [], current_length = 0\<rparr> (replicate n sent15)) sent15"
    by (simp only: foldl_append foldl.simps)
  also have "\<dots> = chunk_step 300 50
           \<lparr>chunks = map (\<lambda>k. join '' '' (replicate k sent15)) [20 ..< n],
            current_chunk = replicate n sent15, current_length = 15 * int n\<rparr> sent15"
    using Suc.IH [OF n] by simp
  also have "\<dots> = \<lparr>chunks = map (\<lambda>k. join '' '' (replicate k sent15)) [20 ..< Suc n],
          current_chunk = replicate (Suc n) sent15, current_length = 15 * int (Suc n)\<rparr>"
    using n by (rule chunk_step_replicate)
  finally show ?case .
qed

lemma chunk_sentences_replicate:
  assumes "0 < n" and "n \<le> 50"
  shows "chunk_sentences 300 50 (replicate n sent15)
       = map (\<lambda>k. join '' '' (replicate k sent15)) ([20 ..< n] @ [n])"
  using assms by (simp add: chunk_sentences_def chunk_loop_replicate del: replicate.simps)

lemma chunk_text_replicate:
  assumes "2 \<le> n" and "n \<le> 50"
  shows "chunk_text (join '' '' (replicate n sent15)) 300 50
       = map (\<lambda>k. join '' '' (replicate k sent15)) ([20 ..< n] @ [n])"
proof -
  have n: "0 < n" using assms by simp
  have ne: "join '' '' (replicate n sent15) \<noteq> []" using replicate_tidy [OF n] by (simp add: tidy_def)
  have w: "\<not> length (split (join '' '' (replicate n sent15))) < 20"
    using assms by (simp add: replicate_words)
  show ?thesis
    using ne w
    by (simp add: chunk_text_def Let_def replicate_clean [OF n] replicate_sentences [OF n]
        chunk_sentences_replicate [OF n assms(2)] del: replicate.simps)
qed

lemma chunk_text_text25:
  "chunk_text text25 300 50 = map (\<lambda>k. join '' '' (replicate k sent15)) [20, 21, 22, 23, 24, 25]"
  unfolding text25_def by (simp add: chunk_text_replicate upt_rec del: replicate.simps)

lemma chunk_step_close:
  assumes "current_length st + int (length (split sentence)) > chunk_size"
    and "current_chunk st \<noteq> []" and "0 \<le> overlap"
  shows "chunks (chunk_step chunk_size overlap st sentence)
           = chunks st @ [join '' '' (current_chunk st)]"
    and "current_chunk (chunk_step chunk_size overlap st sentence)
           = drop (length (current_chunk st) - nat overlap) (current_chunk st) @ [sentence]"
proof -
  have "nat (max 0 (int (length (current_chunk st)) - overlap))
      = length (current_chunk st) - nat overlap"
    using assms(3) by linarith
  then show "current_chunk (chunk_step chunk_size overlap st sentence)
           = drop (length (current_chunk st) - nat overlap) (current_chunk st) @ [sentence]"
    using assms(1,2) by (simp add: chunk_step_def Let_def)
  show "chunks (chunk_step chunk_size overlap st sentence)
           = chunks st @ [join '' '' (current_chunk st)]"
    using assms(1,2) by (simp add: chunk_step_def Let_def)
qed

text \<open>
  C2, amended. On 25 sentences of 15 words, \<^verbatim>\<open>chunk_text\<close> with \<^verbatim>\<open>chunk_size=300\<close> and
  \<^verbatim>\<open>overlap=50\<close> returns six chunks, of the first 20, 21, 22, 23, 24 and 25 sentences: the
  overlap window of 50 sentences carries the whole closed chunk forward, so every further
  sentence closes a chunk again. In general, when a chunk of \<open>n\<close> sentences is closed, the
  new chunk starts with its last \<open>min overlap n\<close> sentences, followed by the next sentence.
\<close>

theorem chunk_overlap_seed:
  "chunk_text text25 300 50 = map (\<lambda>k. join '' '' (replicate k sent15)) [20, 21, 22, 23, 24, 25]
   \<and> (current_length st + int (length (split sentence)) > chunk_size
        \<and> current_chunk st \<noteq> [] \<and> 0 \<le> overlap
      \<longrightarrow> chunks (chunk_step chunk_size overlap st sentence)
            = chunks st @ [join '' '' (current_chunk st)]
        \<and> current_chunk (chunk_step chunk_size overlap st sentence)
            = drop (length (current_chunk st) - nat overlap) (current_chunk st) @ [sentence])"
  using chunk_text_text25 chunk_step_close [where st = st and sentence = sentence and chunk_size = chunk_size
      and overlap = overlap] by blast

theorem chunk_overlap_seed_witness:
  "current_length \<lparr>chunks = [], current_chunk = [''a.'', ''b.''], current_length = 2\<rparr>
       + int (length (split ''c.'')) > 2
   \<and> current_chunk \<lparr>chunks = [], current_chunk = [''a.'', ''b.''], current_length = 2\<rparr> \<noteq> []
   \<and> (0 :: int) \<le> 1
   \<and> chunk_step 2 1 \<lparr>chunks = [], current_chunk = [''a.'', ''b.''], current_length = 2\<rparr> ''c.''
     = \<lparr>chunks = [''a. b.''], current_chunk = [''b.'', ''c.''], current_length = 2\<rparr>"
  using chunk_overlap_seed [where st = "\<lparr>chunks = [], current_chunk = [''a.'', ''b.''], current_length = 2\<rparr>"
      and sentence = "''c.''" and chunk_size = 2 and overlap = 1]
  by (simp add: chunk_step_def split_def is_space_def)

text \<open>
  C2 as stated fails: the text of the scenario, 25 sentences of 15 words, 375 words in
  all, is split into six chunks, not two.
\<close>

theorem chunk_text_six_chunks_counterexample:
  "re_split pat_sentence_gap [] None (clean_text text25) = replicate 25 sent15
   \<and> length (split sent15) = 15 \<and> length (split text25) = 375
   \<and> length (chunk_text text25 300 50) \<noteq> 2"
  using replicate_clean [of 25] replicate_sentences [of 25] replicate_words [of 25]
  by (simp add: text25_def chunk_text_text25 [unfolded text25_def] sent15_words del: replicate.simps)

subsection \<open>Ingestion\<close>

lemma text60_chunks: "chunk_text text60 300 50 = [text60]"
  unfolding text60_def by (simp add: chunk_text_replicate del: replicate.simps)

lemma text60_words: "length (split text60) = 60"
  unfolding text60_def by (simp add: replicate_words del: replicate.simps)

lemma text60_nonempty: "text60 \<noteq> []"
  using replicate_tidy [of 4] by (simp add: text60_def tidy_def del: replicate.simps)

lemma first_load: "load_sources [example_source] empty_db =
    \<lparr>documents = [example_document False], document_chunks = [], next_id = 2\<rparr>"
  by (simp add: load_source_def example_source_def empty_db_def example_document_def)

lemma first_ingestion:
  "process_documents example_pdf (load_sources [example_source] empty_db) = (ingested_db True, None)"
  unfolding first_load
  by (simp add: process_documents_def process_document_def example_pdf_def
      example_document_def text60_nonempty text60_words text60_chunks enumerate_from0_def
      create_chunk_def save_document_def ingested_db_def)

lemma second_load: "load_sources [example_source] (ingested_db True) = ingested_db False"
  by (simp add: load_source_def example_source_def ingested_db_def example_document_def
      save_document_def)

lemma second_ingestion:
  "process_documents example_pdf (ingested_db False) = (ingested_db False, Some IntegrityError)"
  by (simp add: process_documents_def process_document_def example_pdf_def
      example_document_def text60_nonempty text60_words text60_chunks enumerate_from0_def
      create_chunk_def ingested_db_def)

text \<open>
  C9. Reprocessing does not replace the chunks. After a first ingestion,
  \<^verbatim>\<open>load_sources\<close> resets the flag and \<^verbatim>\<open>process_documents\<close> calls \<^verbatim>\<open>objects.create\<close> for
  the pair (document, 0), which is stored already: the call raises \<^verbatim>\<open>IntegrityError\<close>, the
  old chunk stays and the document stays unprocessed.
\<close>

theorem reprocess_raises_integrity_error:
  "process_documents example_pdf (load_sources [example_source] empty_db) = (ingested_db True, None)
   \<and> load_sources [example_source] (ingested_db True) = ingested_db False
   \<and> process_documents example_pdf (ingested_db False) = (ingested_db False, Some IntegrityError)"
  using first_ingestion second_load second_ingestion by simp





















end
